theory Spec2Isabelle
  imports Main "HOL-Library.Word" "HOL-Library.Signed_Division"
begin

section \<open>The BFS user file-system API (fs.c)\<close>

text \<open>
  The embedding follows \<^verbatim>\<open>fs.c\<close>: \<^verbatim>\<open>fsRead\<close>, \<^verbatim>\<open>fsSeek\<close>, \<^verbatim>\<open>fsSize\<close>, \<^verbatim>\<open>fsTell\<close> and
  \<^verbatim>\<open>fsWrite\<close>. The state is what one open file descriptor reaches: the cursor of its
  open-file-table entry, the size and the block map of its inode, the block store and
  the free list. \<^verbatim>\<open>bfsFdToInum\<close> and \<^verbatim>\<open>bfsFindOFTE\<close> select these fields, so the
  descriptor argument of the C functions is the state argument here.

  An \<^verbatim>\<open>i32\<close> is an \<open>int\<close>. Signed overflow is undefined in C: where a sum of the source
  can leave the range of \<^verbatim>\<open>i32\<close> for a non-negative cursor and size, the model has the
  outcome \<open>Undefined\<close>, as it has where \<^verbatim>\<open>memcpy\<close> would leave the block buffer.
  Division and remainder are C's (truncating): \<open>sdiv\<close> and \<open>smod\<close>.
\<close>

subsection \<open>Constants and data\<close>

type_synonym i8 = "8 word"

text \<open>The memory behind an \<^verbatim>\<open>i8 *\<close>: the byte at each offset from the pointer.\<close>

type_synonym mem = "int \<Rightarrow> i8"

definition i32 :: "int \<Rightarrow> bool" where
  "i32 x \<longleftrightarrow> - 2147483648 \<le> x \<and> x \<le> 2147483647"

text \<open>
  Modelled from the spec: \<^verbatim>\<open>bfs.h\<close> is missing, which defines \<^verbatim>\<open>BYTESPERBLOCK\<close>; the
  spec's scenario fixes the block size at 512.
\<close>

definition BYTESPERBLOCK :: int where
  "BYTESPERBLOCK = 512"

text \<open>The values of \<^verbatim>\<open>stdio.h\<close>.\<close>

definition SEEK_SET :: int where "SEEK_SET = 0"
definition SEEK_CUR :: int where "SEEK_CUR = 1"
definition SEEK_END :: int where "SEEK_END = 2"

text \<open>
  The error codes \<^verbatim>\<open>fs.c\<close> passes to \<^verbatim>\<open>FATAL\<close>, and the allocation failure of the
  spec (section 7), which the allocator raises.
\<close>

datatype error = ENEGNUMB | EBADCURS | EBADWHENCE | EDISKFULL

text \<open>A transfer of one block from or to the block store, by disk block number.\<close>

datatype io = BioRead int | BioWrite int

record bfs =
  curs :: int
  fsize :: int
  fbn2dbn :: "int \<rightharpoonup> int"
  disk :: "int \<Rightarrow> mem"
  freelist :: "int list"
  trace :: "io list"

text \<open>
  \<^verbatim>\<open>FATAL\<close> aborts the process ("On failure, abort"): the outcome \<open>Fatal\<close> keeps the
  error and the state at the abort. \<open>Done\<close> is a return, with the returned value.
\<close>

datatype 'a outcome = Undefined | Fatal error bfs | Done 'a bfs

fun final :: "'a outcome \<Rightarrow> bfs option" where
  "final Undefined = None"
| "final (Fatal e s) = Some s"
| "final (Done x s) = Some s"

subsection \<open>The collaborators\<close>

text \<open>
  Modelled from the spec: \<^verbatim>\<open>bfs.c\<close> and \<^verbatim>\<open>bio.c\<close> are missing. Section 6 of the spec
  gives what \<^verbatim>\<open>fs.c\<close> needs of them: \<open>getCursor\<close> and \<open>setCursor\<close>
  (\<^verbatim>\<open>bfsTell\<close>, \<^verbatim>\<open>bfsSetCursor\<close>), \<open>getSize\<close> and \<open>setSize\<close>, \<open>resolveOrNone\<close>
  (\<^verbatim>\<open>bfsFbnToDbn\<close>, lookup only, with \<open>None\<close> for the sentinel \<^verbatim>\<open>ENODBN\<close>), \<open>allocate\<close>
  (\<^verbatim>\<open>bfsAllocBlock\<close>, binds a new physical block, here the head of the free list, and
  fails fatally when storage is exhausted; the block keeps what the store holds in
  it), \<open>extend\<close> (\<^verbatim>\<open>bfsExtend\<close>), and the whole-block transfers \<open>readBlock\<close> and
  \<open>writeBlock\<close> (\<^verbatim>\<open>bioRead\<close>, \<^verbatim>\<open>bioWrite\<close>), each recorded in the trace. The trace holds
  the transfers that \<^verbatim>\<open>fs.c\<close> asks for, not what the collaborators do for themselves.
\<close>

definition bfsTell :: "bfs \<Rightarrow> int" where
  "bfsTell s = curs s"

definition bfsSetCursor :: "bfs \<Rightarrow> int \<Rightarrow> bfs" where
  "bfsSetCursor s c = s\<lparr>curs := c\<rparr>"

definition bfsGetSize :: "bfs \<Rightarrow> int" where
  "bfsGetSize s = fsize s"

definition bfsSetSize :: "bfs \<Rightarrow> int \<Rightarrow> bfs" where
  "bfsSetSize s n = s\<lparr>fsize := n\<rparr>"

definition bfsFbnToDbn :: "bfs \<Rightarrow> int \<Rightarrow> int option" where
  "bfsFbnToDbn s fbn = fbn2dbn s fbn"

definition bfsAllocBlock :: "bfs \<Rightarrow> int \<Rightarrow> int outcome" where
  "bfsAllocBlock s fbn =
     (case freelist s of
        [] \<Rightarrow> Fatal EDISKFULL s
      | dbn # rest \<Rightarrow> Done dbn (s\<lparr>fbn2dbn := (fbn2dbn s)(fbn \<mapsto> dbn), freelist := rest\<rparr>))"

text \<open>
  Modelled from the spec: \<^verbatim>\<open>bfsExtend\<close> is missing. \<^verbatim>\<open>fsWrite\<close> calls it to "allocate
  new blocks as needed" (the comment at line 209), and section 4.2 of the spec makes the
  allocation of the extension the allocator's work: every file block up to \<open>fbn\<close> that
  has no disk block gets one, from block 0 on, and the call fails fatally when storage is
  exhausted.
\<close>

function bfsExtend_loop :: "bfs \<Rightarrow> int \<Rightarrow> int \<Rightarrow> unit outcome" where
  "bfsExtend_loop s f fbn =
     (if f \<le> fbn then
        (case (case bfsFbnToDbn s f of
                 None \<Rightarrow> bfsAllocBlock s f
               | Some dbn \<Rightarrow> Done dbn s) of
           Undefined \<Rightarrow> Undefined
         | Fatal e s' \<Rightarrow> Fatal e s'
         | Done dbn s1 \<Rightarrow> bfsExtend_loop s1 (f + 1) fbn)
      else Done () s)"
  by pat_completeness auto
termination
  by (relation "measure (\<lambda>(s, f, fbn). nat (fbn + 1 - f))") auto

declare bfsExtend_loop.simps [simp del]

definition bfsExtend :: "bfs \<Rightarrow> int \<Rightarrow> unit outcome" where
  "bfsExtend s fbn = bfsExtend_loop s 0 fbn"

definition bioRead :: "bfs \<Rightarrow> int \<Rightarrow> bfs \<times> mem" where
  "bioRead s dbn = (s\<lparr>trace := trace s @ [BioRead dbn]\<rparr>, disk s dbn)"

definition bioWrite :: "bfs \<Rightarrow> int \<Rightarrow> mem \<Rightarrow> bfs" where
  "bioWrite s dbn buf = s\<lparr>disk := (disk s)(dbn := buf), trace := trace s @ [BioWrite dbn]\<rparr>"

text \<open>\<^verbatim>\<open>i8 blockBuf[BYTESPERBLOCK] = {0}\<close>\<close>

definition zeroBlock :: mem where
  "zeroBlock = (\<lambda>i. 0)"

text \<open>
  \<^verbatim>\<open>memcpy(dst + doff, src + soff, n)\<close>. It is defined in C when the \<open>n\<close> bytes lie in
  the block buffer, which \<open>in_block\<close> says of the offset into that buffer.
\<close>

definition memcpy :: "mem \<Rightarrow> int \<Rightarrow> mem \<Rightarrow> int \<Rightarrow> int \<Rightarrow> mem" where
  "memcpy dst doff src soff n =
     (\<lambda>i. if doff \<le> i \<and> i < doff + n then src (soff + (i - doff)) else dst i)"

definition in_block :: "int \<Rightarrow> int \<Rightarrow> bool" where
  "in_block offset n \<longleftrightarrow> 0 \<le> offset \<and> 0 \<le> n \<and> offset + n \<le> BYTESPERBLOCK"

subsection \<open>fsRead\<close>

text \<open>One iteration of the loop of \<^verbatim>\<open>fsRead\<close> (lines 112 to 127): the bytes copied.\<close>

definition fsRead_block ::
  "int \<Rightarrow> bfs \<Rightarrow> int \<Rightarrow> int \<Rightarrow> int \<Rightarrow> mem \<Rightarrow> (int \<times> mem) outcome" where
  "fsRead_block bytesToRead s bytesRead offset fbn buf8 =
     (let (s1, blockBuf) =
            (case bfsFbnToDbn s fbn of
               None \<Rightarrow> (s, zeroBlock)
             | Some dbn \<Rightarrow> bioRead s dbn);
          blockBytesToRead = BYTESPERBLOCK - offset
      in if \<not> i32 (bytesRead + blockBytesToRead) then Undefined
         else
           let blockBytesToRead =
                 (if bytesRead + blockBytesToRead > bytesToRead
                  then bytesToRead - bytesRead else blockBytesToRead)
           in if \<not> in_block offset blockBytesToRead then Undefined
              else Done (blockBytesToRead,
                         memcpy buf8 bytesRead blockBuf offset blockBytesToRead) s1)"

lemma fsRead_block_progress:
  "fsRead_block bytesToRead s bytesRead offset fbn buf8 = Done (n, b) s' \<Longrightarrow>
   0 \<le> n \<and> (n = 0 \<longrightarrow> bytesRead < bytesToRead \<longrightarrow> offset \<noteq> 0)"
  by (auto simp: fsRead_block_def in_block_def BYTESPERBLOCK_def Let_def
           split: prod.splits if_splits)

function fsRead_loop ::
  "int \<Rightarrow> bfs \<Rightarrow> int \<Rightarrow> int \<Rightarrow> int \<Rightarrow> mem \<Rightarrow> (int \<times> mem) outcome" where
  "fsRead_loop bytesToRead s bytesRead offset fbn buf8 =
     (if bytesRead < bytesToRead then
        (case fsRead_block bytesToRead s bytesRead offset fbn buf8 of
           Undefined \<Rightarrow> Undefined
         | Fatal e s' \<Rightarrow> Fatal e s'
         | Done (blockBytesToRead, buf8') s1 \<Rightarrow>
             fsRead_loop bytesToRead s1 (bytesRead + blockBytesToRead) 0 (fbn + 1) buf8')
      else Done (bytesRead, buf8) s)"
  by pat_completeness auto
termination
proof (relation "measures [\<lambda>(t, s, r, off, fbn, b). nat (t - r),
                           \<lambda>(t, s, r, off, fbn, b). if off = 0 then 0 else 1]",
       goal_cases)
  case 1
  show ?case by simp
next
  case (2 bytesToRead s bytesRead offset fbn buf8 x21 x22 n b)
  from fsRead_block_progress [of bytesToRead s bytesRead offset fbn buf8 n b x22] 2
  show ?case by (cases "n = 0") auto
qed

declare fsRead_loop.simps [simp del]

definition fsRead :: "bfs \<Rightarrow> int \<Rightarrow> mem \<Rightarrow> (int \<times> mem) outcome" where
  "fsRead s numb buf =
     (if numb \<le> 0 then Fatal ENEGNUMB s
      else
        let cursor = bfsTell s;
            size = bfsGetSize s
        in if \<not> i32 (cursor + numb) then Undefined
           else
             let bytesToRead = (if cursor + numb > size then size - cursor else numb)
             in if bytesToRead \<le> 0 then Done (0, buf) s
                else
                  (case fsRead_loop bytesToRead s 0 (cursor smod BYTESPERBLOCK)
                          (cursor sdiv BYTESPERBLOCK) buf of
                     Undefined \<Rightarrow> Undefined
                   | Fatal e s' \<Rightarrow> Fatal e s'
                   | Done (bytesRead, buf') s1 \<Rightarrow>
                       Done (bytesRead, buf') (bfsSetCursor s1 (cursor + bytesRead))))"

subsection \<open>fsSeek, fsTell, fsSize\<close>

definition fsSize :: "bfs \<Rightarrow> int" where
  "fsSize s = bfsGetSize s"

definition fsTell :: "bfs \<Rightarrow> int" where
  "fsTell s = bfsTell s"

definition fsSeek :: "bfs \<Rightarrow> int \<Rightarrow> int \<Rightarrow> int outcome" where
  "fsSeek s offset whence =
     (if offset < 0 then Fatal EBADCURS s
      else if whence = SEEK_SET then Done 0 (s\<lparr>curs := offset\<rparr>)
      else if whence = SEEK_CUR then
        (if \<not> i32 (curs s + offset) then Undefined
         else Done 0 (s\<lparr>curs := curs s + offset\<rparr>))
      else if whence = SEEK_END then
        (let end = fsSize s
         in if \<not> i32 (end + offset) then Undefined
            else Done 0 (s\<lparr>curs := end + offset\<rparr>))
      else Fatal EBADWHENCE s)"

subsection \<open>fsWrite\<close>

text \<open>The gap loop of \<^verbatim>\<open>fsWrite\<close> (lines 214 to 226).\<close>

function fsWrite_gap :: "bfs \<Rightarrow> int \<Rightarrow> int \<Rightarrow> unit outcome" where
  "fsWrite_gap s cursor gapStart =
     (if gapStart < cursor then
        (let fbn = gapStart sdiv BYTESPERBLOCK
         in case (case bfsFbnToDbn s fbn of
                    None \<Rightarrow> bfsAllocBlock s fbn
                  | Some dbn \<Rightarrow> Done dbn s) of
              Undefined \<Rightarrow> Undefined
            | Fatal e s' \<Rightarrow> Fatal e s'
            | Done dbn s1 \<Rightarrow>
                (let s2 = bioWrite s1 dbn zeroBlock
                 in if \<not> i32 (gapStart + BYTESPERBLOCK) then Undefined
                    else fsWrite_gap s2 cursor (gapStart + BYTESPERBLOCK)))
      else Done () s)"
  by pat_completeness auto
termination
  by (relation "measure (\<lambda>(s, cursor, gapStart). nat (cursor - gapStart))")
     (auto simp: BYTESPERBLOCK_def)

declare fsWrite_gap.simps [simp del]

text \<open>The extension of the file (lines 206 to 229).\<close>

definition fsWrite_extend :: "bfs \<Rightarrow> int \<Rightarrow> int \<Rightarrow> int \<Rightarrow> unit outcome" where
  "fsWrite_extend s cursor numb sz =
     (if cursor + numb > sz then
        (let newFbn = (cursor + numb - 1) sdiv BYTESPERBLOCK
         in case bfsExtend s newFbn of
              Undefined \<Rightarrow> Undefined
            | Fatal e s' \<Rightarrow> Fatal e s'
            | Done u s1 \<Rightarrow>
                (case (if cursor > sz then fsWrite_gap s1 cursor sz else Done () s1) of
                   Undefined \<Rightarrow> Undefined
                 | Fatal e s' \<Rightarrow> Fatal e s'
                 | Done u' s2 \<Rightarrow> Done () (bfsSetSize s2 (cursor + numb))))
      else Done () s)"

text \<open>
  One iteration of the write loop (lines 240 to 263): the block is resolved or
  allocated, read when it exists and is modified in part, patched and written back.
  The value is the number of bytes written to it.
\<close>

definition fsWrite_block :: "int \<Rightarrow> mem \<Rightarrow> bfs \<Rightarrow> int \<Rightarrow> int \<Rightarrow> int \<Rightarrow> int outcome" where
  "fsWrite_block numb buf8 s bytesWritten offset fbn =
     (case (case bfsFbnToDbn s fbn of
              None \<Rightarrow>
                (case bfsAllocBlock s fbn of
                   Undefined \<Rightarrow> Undefined
                 | Fatal e s' \<Rightarrow> Fatal e s'
                 | Done dbn s' \<Rightarrow> Done (dbn, zeroBlock) s')
            | Some dbn \<Rightarrow>
                (if offset \<noteq> 0 \<or> numb - bytesWritten < BYTESPERBLOCK
                 then (let (s', blockBuf) = bioRead s dbn in Done (dbn, blockBuf) s')
                 else Done (dbn, zeroBlock) s)) of
        Undefined \<Rightarrow> Undefined
      | Fatal e s' \<Rightarrow> Fatal e s'
      | Done (dbn, blockBuf) s1 \<Rightarrow>
          (let blockBytesToWrite = BYTESPERBLOCK - offset
           in if \<not> i32 (bytesWritten + blockBytesToWrite) then Undefined
              else
                let blockBytesToWrite =
                      (if bytesWritten + blockBytesToWrite > numb
                       then numb - bytesWritten else blockBytesToWrite)
                in if \<not> in_block offset blockBytesToWrite then Undefined
                   else Done blockBytesToWrite
                          (bioWrite s1 dbn
                             (memcpy blockBuf offset buf8 bytesWritten blockBytesToWrite))))"

lemma fsWrite_block_progress:
  "fsWrite_block numb buf8 s bytesWritten offset fbn = Done n s' \<Longrightarrow>
   0 \<le> n \<and> (n = 0 \<longrightarrow> bytesWritten < numb \<longrightarrow> offset \<noteq> 0)"
  by (auto simp: fsWrite_block_def in_block_def BYTESPERBLOCK_def Let_def
           split: prod.splits if_splits option.splits outcome.splits)

function fsWrite_loop :: "int \<Rightarrow> mem \<Rightarrow> bfs \<Rightarrow> int \<Rightarrow> int \<Rightarrow> int \<Rightarrow> int outcome" where
  "fsWrite_loop numb buf8 s bytesWritten offset fbn =
     (if bytesWritten < numb then
        (case fsWrite_block numb buf8 s bytesWritten offset fbn of
           Undefined \<Rightarrow> Undefined
         | Fatal e s' \<Rightarrow> Fatal e s'
         | Done blockBytesToWrite s1 \<Rightarrow>
             fsWrite_loop numb buf8 s1 (bytesWritten + blockBytesToWrite) 0 (fbn + 1))
      else Done bytesWritten s)"
  by pat_completeness auto
termination
proof (relation "measures [\<lambda>(numb, b, s, w, off, fbn). nat (numb - w),
                           \<lambda>(numb, b, s, w, off, fbn). if off = 0 then 0 else 1]",
       goal_cases)
  case 1
  show ?case by simp
next
  case (2 numb buf8 s bytesWritten offset fbn n s1)
  from fsWrite_block_progress [of numb buf8 s bytesWritten offset fbn n s1] 2
  show ?case by (cases "n = 0") auto
qed

declare fsWrite_loop.simps [simp del]

definition fsWrite :: "bfs \<Rightarrow> int \<Rightarrow> mem \<Rightarrow> int outcome" where
  "fsWrite s numb buf =
     (if numb \<le> 0 then Fatal ENEGNUMB s
      else
        let cursor = bfsTell s;
            size = bfsGetSize s
        in if \<not> i32 (cursor + numb) then Undefined
           else
             (case fsWrite_extend s cursor numb size of
                Undefined \<Rightarrow> Undefined
              | Fatal e s' \<Rightarrow> Fatal e s'
              | Done u s1 \<Rightarrow>
                  (case fsWrite_loop numb buf s1 0 (cursor smod BYTESPERBLOCK)
                          (cursor sdiv BYTESPERBLOCK) of
                     Undefined \<Rightarrow> Undefined
                   | Fatal e s' \<Rightarrow> Fatal e s'
                   | Done bytesWritten s2 \<Rightarrow>
                       Done 0 (bfsSetCursor s2 (cursor + bytesWritten)))))"

subsection \<open>The file as a sequence of bytes\<close>

text \<open>
  The byte of the file at a position, as \<^verbatim>\<open>fsRead\<close> resolves it: through the block map
  into the block store, and zero where the block is not allocated.
\<close>

definition file_byte :: "bfs \<Rightarrow> int \<Rightarrow> i8" where
  "file_byte s p =
     (case fbn2dbn s (p div BYTESPERBLOCK) of
        None \<Rightarrow> 0
      | Some dbn \<Rightarrow> disk s dbn (p mod BYTESPERBLOCK))"

text \<open>
  The block map and the free list are consistent: no disk block is bound to two file
  blocks, none is both bound and free, and none is twice in the free list.
\<close>

definition consistent :: "bfs \<Rightarrow> bool" where
  "consistent s \<longleftrightarrow>
     distinct (freelist s) \<and>
     (\<forall>f d. fbn2dbn s f = Some d \<longrightarrow> d \<notin> set (freelist s)) \<and>
     (\<forall>f g d. fbn2dbn s f = Some d \<longrightarrow> fbn2dbn s g = Some d \<longrightarrow> f = g)"

text \<open>
  Modelled from the spec: \<^verbatim>\<open>bfsCreateFile\<close> is missing. A created file is empty, with
  no block and its cursor at 0 (section 3 and the scenario of section 8).
\<close>

definition created :: "(int \<Rightarrow> mem) \<Rightarrow> int list \<Rightarrow> bfs" where
  "created dk fl =
     \<lparr>curs = 0, fsize = 0, fbn2dbn = Map.empty, disk = dk, freelist = fl, trace = []\<rparr>"

subsection \<open>Reading the state\<close>

text \<open>
  The block of the file at a file block number, as an iteration of the read loop sees
  it, and the transfer that iteration makes.
\<close>

definition block_of :: "bfs \<Rightarrow> int \<Rightarrow> mem" where
  "block_of s fbn = (case fbn2dbn s fbn of None \<Rightarrow> zeroBlock | Some d \<Rightarrow> disk s d)"

definition read_events :: "bfs \<Rightarrow> int \<Rightarrow> io list" where
  "read_events s fbn = (case fbn2dbn s fbn of None \<Rightarrow> [] | Some d \<Rightarrow> [BioRead d])"

text \<open>
  The states a created file reaches by calls of \<^verbatim>\<open>fsWrite\<close>, \<^verbatim>\<open>fsRead\<close> and \<^verbatim>\<open>fsSeek\<close>
  that return, each with the set of the byte positions that a write was asked to write:
  the range from the cursor to the cursor plus the length of every \<^verbatim>\<open>fsWrite\<close>.
\<close>

inductive reach :: "bfs \<Rightarrow> int set \<Rightarrow> bool" where
  reach_create: "distinct fl \<Longrightarrow> reach (created dk fl) {}"
| reach_write: "reach s W \<Longrightarrow> fsWrite s N buf = Done r s' \<Longrightarrow>
                reach s' (W \<union> {curs s ..< curs s + N})"
| reach_read: "reach s W \<Longrightarrow> fsRead s N out = Done x s' \<Longrightarrow> reach s' W"
| reach_seek: "reach s W \<Longrightarrow> fsSeek s offset whence = Done r s' \<Longrightarrow> reach s' W"

text \<open>
  The sequence \<^verbatim>\<open>fsWrite(h, N, buf); fsSeek(h, -N, SEEK_CUR); fsRead(h, N, out)\<close>,
  which stops at the first call that does not return.
\<close>

definition write_seek_read :: "bfs \<Rightarrow> int \<Rightarrow> mem \<Rightarrow> mem \<Rightarrow> (int \<times> mem) outcome" where
  "write_seek_read s N buf out =
     (case fsWrite s N buf of
        Undefined \<Rightarrow> Undefined
      | Fatal e s' \<Rightarrow> Fatal e s'
      | Done r s1 \<Rightarrow>
          (case fsSeek s1 (- N) SEEK_CUR of
             Undefined \<Rightarrow> Undefined
           | Fatal e s' \<Rightarrow> Fatal e s'
           | Done r' s2 \<Rightarrow> fsRead s2 N out))"

subsection \<open>Concrete data\<close>

text \<open>
  A block store of zero bytes and one of bytes \<^verbatim>\<open>0xFF\<close> (what free blocks may hold from
  an earlier use), the buffers \<^verbatim>\<open>"0123456789..."\<close> and \<^verbatim>\<open>"ABCDE..."\<close>, and the state of
  the scenario of the spec (section 8) after \<^verbatim>\<open>write(h, 10, "0123456789")\<close> on a created
  file whose free list is 3, 4, 5: the extension has bound disk block 3 to file block 0,
  and the write loop has read that block, patched it and written it back.
\<close>

definition blank_disk :: "int \<Rightarrow> mem" where
  "blank_disk = (\<lambda>d i. 0)"


definition digits :: mem where
  "digits = (\<lambda>i. 48 + word_of_int i)"

definition letters :: mem where
  "letters = (\<lambda>i. 65 + word_of_int i)"

definition after_digits :: bfs where
  "after_digits =
     \<lparr>curs = 10, fsize = 10, fbn2dbn = [0 \<mapsto> 3],
      disk = blank_disk(3 := memcpy (blank_disk 3) 0 digits 0 10), freelist = [4, 5],
      trace = [BioRead 3, BioWrite 3]\<rparr>"

section \<open>Lemmas\<close>

subsection \<open>Blocks and positions\<close>

lemma BPB_pos: "0 < BYTESPERBLOCK"
  by (simp add: BYTESPERBLOCK_def)

lemma sdiv_BPB: "0 \<le> a \<Longrightarrow> a sdiv BYTESPERBLOCK = a div BYTESPERBLOCK"
  by (simp add: signed_divide_int_def BYTESPERBLOCK_def sgn_if)

lemma smod_BPB: "0 \<le> a \<Longrightarrow> a smod BYTESPERBLOCK = a mod BYTESPERBLOCK"
  by (simp add: signed_modulo_int_def BYTESPERBLOCK_def sgn_if)

lemma block_div: "0 \<le> x \<Longrightarrow> x < BYTESPERBLOCK \<Longrightarrow> (f * BYTESPERBLOCK + x) div BYTESPERBLOCK = f"
  using BPB_pos by simp

lemma block_mod: "0 \<le> x \<Longrightarrow> x < BYTESPERBLOCK \<Longrightarrow> (f * BYTESPERBLOCK + x) mod BYTESPERBLOCK = x"
  using BPB_pos by simp

lemma block_split:
  obtains q m where "p = q * BYTESPERBLOCK + m" "0 \<le> m" "m < BYTESPERBLOCK"
    "p div BYTESPERBLOCK = q" "p mod BYTESPERBLOCK = m"
proof -
  have "p = (p div BYTESPERBLOCK) * BYTESPERBLOCK + p mod BYTESPERBLOCK" by simp
  moreover have "0 \<le> p mod BYTESPERBLOCK" "p mod BYTESPERBLOCK < BYTESPERBLOCK"
    using BPB_pos by simp_all
  ultimately show ?thesis using that by blast
qed

lemma block_bounds:
  "p div BYTESPERBLOCK = f \<longleftrightarrow> f * BYTESPERBLOCK \<le> p \<and> p < f * BYTESPERBLOCK + BYTESPERBLOCK"
proof -
  obtain q m where *: "p = q * BYTESPERBLOCK + m" "0 \<le> m" "m < BYTESPERBLOCK"
    "p div BYTESPERBLOCK = q" by (rule block_split)
  show ?thesis
  proof
    assume "p div BYTESPERBLOCK = f"
    with * show "f * BYTESPERBLOCK \<le> p \<and> p < f * BYTESPERBLOCK + BYTESPERBLOCK" by auto
  next
    assume a: "f * BYTESPERBLOCK \<le> p \<and> p < f * BYTESPERBLOCK + BYTESPERBLOCK"
    have "p = f * BYTESPERBLOCK + (p - f * BYTESPERBLOCK)" by simp
    then have "p div BYTESPERBLOCK = (f * BYTESPERBLOCK + (p - f * BYTESPERBLOCK)) div BYTESPERBLOCK"
      by simp
    also have "\<dots> = f" using a by (intro block_div) auto
    finally show "p div BYTESPERBLOCK = f" .
  qed
qed

subsection \<open>The read loop\<close>

lemma file_byte_block_of: "file_byte s p = block_of s (p div BYTESPERBLOCK) (p mod BYTESPERBLOCK)"
  by (simp add: file_byte_def block_of_def zeroBlock_def split: option.splits)

lemma file_byte_upd [simp]:
  "file_byte (s\<lparr>trace := tr\<rparr>) = file_byte s"
  "file_byte (s\<lparr>curs := c\<rparr>) = file_byte s"
  "file_byte (s\<lparr>fsize := n\<rparr>) = file_byte s"
  by (simp_all add: file_byte_def fun_eq_iff split: option.splits)

lemma consistent_upd [simp]:
  "consistent (s\<lparr>trace := tr\<rparr>) = consistent s"
  "consistent (s\<lparr>curs := c\<rparr>) = consistent s"
  "consistent (s\<lparr>fsize := n\<rparr>) = consistent s"
  by (simp_all add: consistent_def)

text \<open>
  One iteration of the read loop inside the block, and the whole loop: it copies the
  bytes of the file from the position of the block offset on, and reads each allocated
  block it passes.
\<close>

lemma fsRead_block_Done:
  assumes "0 \<le> off" "off < BYTESPERBLOCK" "0 \<le> r" "r < t" "t + BYTESPERBLOCK \<le> 2147483648"
  shows "fsRead_block t s r off fbn buf =
           Done (min (BYTESPERBLOCK - off) (t - r),
                 memcpy buf r (block_of s fbn) off (min (BYTESPERBLOCK - off) (t - r)))
                (s\<lparr>trace := trace s @ read_events s fbn\<rparr>)"
  using assms
  by (auto simp: fsRead_block_def bfsFbnToDbn_def bioRead_def block_of_def read_events_def
                 i32_def in_block_def Let_def min_def split: option.splits)


lemma fsRead_loop_Done:
  assumes "0 \<le> off" "off < BYTESPERBLOCK" "0 \<le> r" "r \<le> t" "t + BYTESPERBLOCK \<le> 2147483648"
  shows "\<exists>buf' tr. fsRead_loop t s r off fbn buf = Done (t, buf') (s\<lparr>trace := trace s @ tr\<rparr>) \<and>
           (\<forall>i. buf' i = (if r \<le> i \<and> i < t
                            then file_byte s (fbn * BYTESPERBLOCK + off + (i - r)) else buf i)) \<and>
           (\<forall>e\<in>set tr. \<exists>f d. fbn \<le> f \<and> fbn2dbn s f = Some d \<and> e = BioRead d) \<and>
           (consistent s \<longrightarrow> distinct tr)"
  using assms
proof (induction t s r off fbn buf rule: fsRead_loop.induct)
  case (1 t s r off fbn buf)
  show ?case
  proof (cases "r < t")
    case False
    with 1 have "r = t" by simp
    then have "fsRead_loop t s r off fbn buf = Done (t, buf) (s\<lparr>trace := trace s @ []\<rparr>)"
      by (simp add: fsRead_loop.simps)
    then show ?thesis using \<open>r = t\<close> by (intro exI [of _ buf] exI [of _ "[]"]) auto
  next
    case True
    define n where "n = min (BYTESPERBLOCK - off) (t - r)"
    define b where "b = memcpy buf r (block_of s fbn) off n"
    define s1 where "s1 = s\<lparr>trace := trace s @ read_events s fbn\<rparr>"
    have blk: "fsRead_block t s r off fbn buf = Done (n, b) s1"
      unfolding n_def b_def s1_def using 1 True by (intro fsRead_block_Done) auto
    have n: "0 < n" "n \<le> BYTESPERBLOCK - off" "r + n \<le> t"
      using 1 True by (auto simp: n_def)
    from "1.IH" [OF True blk refl] n 1
    obtain buf' tr where
      loop: "fsRead_loop t s1 (r + n) 0 (fbn + 1) b = Done (t, buf') (s1\<lparr>trace := trace s1 @ tr\<rparr>)"
      and bytes: "\<And>i. buf' i = (if r + n \<le> i \<and> i < t
                     then file_byte s1 ((fbn + 1) * BYTESPERBLOCK + 0 + (i - (r + n))) else b i)"
      and evs: "\<forall>e\<in>set tr. \<exists>f d. fbn + 1 \<le> f \<and> fbn2dbn s1 f = Some d \<and> e = BioRead d"
      and dist: "consistent s1 \<longrightarrow> distinct tr"
      using BPB_pos by auto
    have same: "file_byte s1 = file_byte s" "fbn2dbn s1 = fbn2dbn s"
      by (simp_all add: s1_def)
    have con: "consistent s1 = consistent s"
      by (simp add: s1_def)
    have run: "fsRead_loop t s r off fbn buf =
                 Done (t, buf') (s\<lparr>trace := trace s @ (read_events s fbn @ tr)\<rparr>)"
      using True blk loop by (subst fsRead_loop.simps) (simp add: s1_def)
    have "buf' i = (if r \<le> i \<and> i < t
                    then file_byte s (fbn * BYTESPERBLOCK + off + (i - r)) else buf i)" for i
    proof (cases "r + n \<le> i \<and> i < t")
      case True
      then have "n = BYTESPERBLOCK - off" by (auto simp: n_def min_def split: if_splits)
      then have "file_byte s ((fbn + 1) * BYTESPERBLOCK + 0 + (i - (r + n))) =
                 file_byte s (fbn * BYTESPERBLOCK + off + (i - r))"
        by (intro arg_cong [where f = "file_byte s"]) (simp add: algebra_simps)
      moreover have "r \<le> i" using True n by simp
      ultimately show ?thesis using True bytes [of i] same by simp
    next
      case False
      show ?thesis
      proof (cases "r \<le> i \<and> i < r + n")
        case True
        then have "0 \<le> off + (i - r)" "off + (i - r) < BYTESPERBLOCK"
          using 1 n by auto
        then have "file_byte s (fbn * BYTESPERBLOCK + off + (i - r)) = block_of s fbn (off + (i - r))"
          using block_div [of "off + (i - r)" fbn] block_mod [of "off + (i - r)" fbn]
          by (simp add: file_byte_block_of add.assoc)
        with True False n bytes [of i] show ?thesis
          by (auto simp: b_def memcpy_def)
      next
        case F2: False
        with False n bytes [of i] show ?thesis
          by (auto simp: b_def memcpy_def)
      qed
    qed
    moreover have "\<forall>e\<in>set (read_events s fbn @ tr). \<exists>f d. fbn \<le> f \<and> fbn2dbn s f = Some d \<and> e = BioRead d"
    proof
      fix e assume "e \<in> set (read_events s fbn @ tr)"
      then consider "e \<in> set (read_events s fbn)" | "e \<in> set tr" by auto
      then show "\<exists>f d. fbn \<le> f \<and> fbn2dbn s f = Some d \<and> e = BioRead d"
      proof cases
        case 1
        then show ?thesis by (auto simp: read_events_def split: option.splits)
      next
        case 2
        with evs same obtain f d where "fbn + 1 \<le> f" "fbn2dbn s f = Some d" "e = BioRead d"
          by auto
        then show ?thesis by (intro exI [of _ f] exI [of _ d]) simp
      qed
    qed
    moreover have "consistent s \<longrightarrow> distinct (read_events s fbn @ tr)"
    proof
      assume c: "consistent s"
      with dist con have "distinct tr" by simp
      moreover have "e \<notin> set tr" if "e \<in> set (read_events s fbn)" for e
      proof
        assume "e \<in> set tr"
        with evs same obtain f d where f: "fbn + 1 \<le> f" "fbn2dbn s f = Some d" "e = BioRead d"
          by auto
        from that f have "fbn2dbn s fbn = Some d"
          by (auto simp: read_events_def split: option.splits)
        with c f have "f = fbn" unfolding consistent_def by blast
        with f show False by simp
      qed
      moreover have "distinct (read_events s fbn)"
        by (simp add: read_events_def split: option.splits)
      ultimately show "distinct (read_events s fbn @ tr)" by auto
    qed
    ultimately show ?thesis using run by blast
  qed
qed


text \<open>
  What \<^verbatim>\<open>fsRead\<close> returns when no sum of the call leaves \<^verbatim>\<open>i32\<close>, and that it has no
  defined result when the end of the request does.
\<close>

lemma fsRead_overflow:
  "0 < N \<Longrightarrow> \<not> i32 (curs s + N) \<Longrightarrow> fsRead s N out = Undefined"
  by (simp add: fsRead_def bfsTell_def Let_def)

lemma fsRead_Done:
  assumes "0 < N" "0 \<le> curs s" "curs s + N \<le> 2147483647"
    "min N (fsize s - curs s) + BYTESPERBLOCK \<le> 2147483648"
  shows "\<exists>out' tr. fsRead s N out =
             Done (max 0 (min N (fsize s - curs s)), out')
                  (s\<lparr>curs := curs s + max 0 (min N (fsize s - curs s)),
                     trace := trace s @ tr\<rparr>) \<and>
           (\<forall>i. out' i = (if 0 \<le> i \<and> i < max 0 (min N (fsize s - curs s))
                            then file_byte s (curs s + i) else out i)) \<and>
           (\<forall>e\<in>set tr. \<exists>f d. fbn2dbn s f = Some d \<and> e = BioRead d) \<and>
           (consistent s \<longrightarrow> distinct tr)"
proof -
  define k where "k = (if curs s + N > fsize s then fsize s - curs s else N)"
  have i32: "i32 (curs s + N)"
    using assms BPB_pos by (simp add: i32_def)
  show ?thesis
  proof (cases "k \<le> 0")
    case True
    then have "max 0 (min N (fsize s - curs s)) = 0"
      using assms by (auto simp: k_def split: if_splits)
    moreover have "fsRead s N out = Done (0, out) s"
      using assms i32 True by (simp add: fsRead_def bfsTell_def bfsGetSize_def k_def Let_def)
    ultimately show ?thesis
      by (intro exI [of _ out] exI [of _ "[]"]) auto
  next
    case False
    then have k: "max 0 (min N (fsize s - curs s)) = k" "0 < k" "k \<le> N"
      using assms by (auto simp: k_def split: if_splits)
    have pre: "0 \<le> curs s mod BYTESPERBLOCK" "curs s mod BYTESPERBLOCK < BYTESPERBLOCK"
      "(0::int) \<le> 0" "0 \<le> k" "k + BYTESPERBLOCK \<le> 2147483648"
      using BPB_pos assms k by auto
    from fsRead_loop_Done [OF pre, of s "curs s div BYTESPERBLOCK" out]
    obtain buf' tr where
      loop: "fsRead_loop k s 0 (curs s mod BYTESPERBLOCK) (curs s div BYTESPERBLOCK) out =
               Done (k, buf') (s\<lparr>trace := trace s @ tr\<rparr>)"
      and bytes: "\<And>i. buf' i = (if 0 \<le> i \<and> i < k
           then file_byte s (curs s div BYTESPERBLOCK * BYTESPERBLOCK + curs s mod BYTESPERBLOCK + (i - 0))
           else out i)"
      and evs: "\<forall>e\<in>set tr. \<exists>f d. curs s div BYTESPERBLOCK \<le> f \<and> fbn2dbn s f = Some d \<and> e = BioRead d"
      and dist: "consistent s \<longrightarrow> distinct tr"
      by blast
    have "fsRead s N out = Done (k, buf') (s\<lparr>curs := curs s + k, trace := trace s @ tr\<rparr>)"
      using assms i32 False loop
      by (simp add: fsRead_def bfsTell_def bfsGetSize_def bfsSetCursor_def Let_def
                    sdiv_BPB smod_BPB k_def [symmetric])
    moreover have "\<forall>i. buf' i = (if 0 \<le> i \<and> i < k then file_byte s (curs s + i) else out i)"
      using bytes by simp
    moreover have "\<forall>e\<in>set tr. \<exists>f d. fbn2dbn s f = Some d \<and> e = BioRead d"
      using evs by blast
    ultimately show ?thesis using dist unfolding k(1) by blast
  qed
qed

text \<open>The same for a loop that returns or aborts, without the bound on the sums.\<close>

lemma fsRead_block_final:
  "final (fsRead_block t s r off fbn buf) = Some s' \<Longrightarrow>
   s' = s\<lparr>trace := trace s @ read_events s fbn\<rparr>"
  by (cases "fbn2dbn s fbn")
     (auto simp: fsRead_block_def bfsFbnToDbn_def bioRead_def read_events_def Let_def
           split: if_splits)

lemma fsRead_block_count:
  "fsRead_block t s r off fbn buf = Done (n, b) s' \<Longrightarrow> r < t \<Longrightarrow> r + n \<le> t"
  by (auto simp: fsRead_block_def Let_def split: if_splits prod.splits)

lemma fsRead_loop_count:
  "fsRead_loop t s r off fbn buf = Done (k, b) s' \<Longrightarrow> r \<le> t \<Longrightarrow> k = t"
proof (induction t s r off fbn buf rule: fsRead_loop.induct)
  case (1 t s r off fbn buf)
  show ?case
  proof (cases "r < t")
    case False
    with "1.prems" show ?thesis by (simp add: fsRead_loop.simps)
  next
    case True
    from True "1.prems"(1) obtain n b1 s1 where
      blk: "fsRead_block t s r off fbn buf = Done (n, b1) s1"
      and loop: "fsRead_loop t s1 (r + n) 0 (fbn + 1) b1 = Done (k, b) s'"
      by (subst (asm) fsRead_loop.simps) (auto split: outcome.splits prod.splits)
    from "1.IH" [OF True blk refl loop] fsRead_block_count [OF blk True] show ?thesis by simp
  qed
qed

lemma fsRead_loop_trace:
  "final (fsRead_loop t s r off fbn buf) = Some s' \<Longrightarrow>
   \<exists>tr. s' = s\<lparr>trace := trace s @ tr\<rparr> \<and>
        (\<forall>e\<in>set tr. \<exists>f d. fbn \<le> f \<and> fbn2dbn s f = Some d \<and> e = BioRead d) \<and>
        (consistent s \<longrightarrow> distinct tr)"
proof (induction t s r off fbn buf rule: fsRead_loop.induct)
  case (1 t s r off fbn buf)
  show ?case
  proof (cases "r < t")
    case False
    with "1.prems" have "s' = s\<lparr>trace := trace s @ []\<rparr>" by (simp add: fsRead_loop.simps)
    then show ?thesis by (intro exI [of _ "[]"]) simp
  next
    case True
    show ?thesis
    proof (cases "fsRead_block t s r off fbn buf")
      case Undefined
      with True "1.prems" show ?thesis by (simp add: fsRead_loop.simps)
    next
      case (Fatal e s0)
      then show ?thesis
        by (auto simp: fsRead_block_def Let_def split: if_splits prod.splits)
    next
      case (Done x s1)
      obtain n b where x: "x = (n, b)" by (cases x)
      from Done fsRead_block_final [of t s r off fbn buf s1]
      have s1: "s1 = s\<lparr>trace := trace s @ read_events s fbn\<rparr>" by simp
      from True Done x "1.prems" have "final (fsRead_loop t s1 (r + n) 0 (fbn + 1) b) = Some s'"
        by (subst (asm) fsRead_loop.simps) simp
      from "1.IH" [OF True Done x [symmetric] this]
      obtain tr where s': "s' = s1\<lparr>trace := trace s1 @ tr\<rparr>"
        and evs: "\<forall>e\<in>set tr. \<exists>f d. fbn + 1 \<le> f \<and> fbn2dbn s1 f = Some d \<and> e = BioRead d"
        and dist: "consistent s1 \<longrightarrow> distinct tr"
        by blast
      have eq: "s' = s\<lparr>trace := trace s @ (read_events s fbn @ tr)\<rparr>"
        using s' s1 by simp
      have a: "\<forall>e\<in>set (read_events s fbn @ tr). \<exists>f d. fbn \<le> f \<and> fbn2dbn s f = Some d \<and> e = BioRead d"
      proof
        fix e assume "e \<in> set (read_events s fbn @ tr)"
        then consider "e \<in> set (read_events s fbn)" | "e \<in> set tr" by auto
        then show "\<exists>f d. fbn \<le> f \<and> fbn2dbn s f = Some d \<and> e = BioRead d"
        proof cases
          case 1
          then show ?thesis by (auto simp: read_events_def split: option.splits)
        next
          case 2
          with evs s1 obtain f d where "fbn + 1 \<le> f" "fbn2dbn s f = Some d" "e = BioRead d"
            by auto
          then show ?thesis by (intro exI [of _ f] exI [of _ d]) simp
        qed
      qed
      have d: "consistent s \<longrightarrow> distinct (read_events s fbn @ tr)"
      proof
        assume c: "consistent s"
        with dist s1 have "distinct tr" by simp
        moreover have "e \<notin> set tr" if "e \<in> set (read_events s fbn)" for e
        proof
          assume "e \<in> set tr"
          with evs s1 obtain f d where f: "fbn + 1 \<le> f" "fbn2dbn s f = Some d" "e = BioRead d"
            by auto
          from that f have "fbn2dbn s fbn = Some d"
            by (auto simp: read_events_def split: option.splits)
          with c f have "f = fbn" unfolding consistent_def by blast
          with f show False by simp
        qed
        moreover have "distinct (read_events s fbn)"
          by (simp add: read_events_def split: option.splits)
        ultimately show "distinct (read_events s fbn @ tr)" by auto
      qed
      from eq a d show ?thesis by (intro exI [of _ "read_events s fbn @ tr"] conjI)
    qed
  qed
qed

lemma fsRead_final:
  assumes "final (fsRead s N out) = Some s'"
  shows "\<exists>c tr. s' = s\<lparr>curs := c, trace := trace s @ tr\<rparr> \<and>
           (\<forall>e\<in>set tr. \<exists>d. e = BioRead d) \<and> (consistent s \<longrightarrow> distinct tr)"
proof -
  define k where "k = (if curs s + N > fsize s then fsize s - curs s else N)"
  let ?l = "fsRead_loop k s 0 (curs s smod BYTESPERBLOCK) (curs s sdiv BYTESPERBLOCK) out"
  have still: "\<exists>c tr. s = s\<lparr>curs := c, trace := trace s @ tr\<rparr> \<and>
           (\<forall>e\<in>set tr. \<exists>d. e = BioRead d) \<and> (consistent s \<longrightarrow> distinct tr)"
    by (intro exI [of _ "curs s"] exI [of _ "[]"]) simp
  show ?thesis
  proof (cases "N \<le> 0 \<or> k \<le> 0")
    case True
    with assms have "s' = s"
      by (auto simp: fsRead_def bfsTell_def bfsGetSize_def Let_def k_def split: if_splits)
    with still show ?thesis by simp
  next
    case False
    with assms have "\<exists>s0 c. final ?l = Some s0 \<and> s' = s0\<lparr>curs := c\<rparr>"
    proof (cases ?l)
      case Undefined
      with False assms show ?thesis
        by (simp add: fsRead_def bfsTell_def bfsGetSize_def Let_def k_def [symmetric]
                 split: if_splits)
    next
      case (Fatal e s0)
      with False assms have "s' = s0\<lparr>curs := curs s0\<rparr>"
        by (simp add: fsRead_def bfsTell_def bfsGetSize_def Let_def k_def [symmetric]
                 split: if_splits)
      with Fatal show ?thesis by (intro exI [of _ s0] exI [of _ "curs s0"]) simp
    next
      case (Done x s0)
      obtain n b where x: "x = (n, b)" by (cases x)
      with Done False assms have "s' = s0\<lparr>curs := curs s + n\<rparr>"
        by (simp add: fsRead_def bfsTell_def bfsGetSize_def bfsSetCursor_def Let_def
                      k_def [symmetric] split: if_splits)
      with Done show ?thesis by (intro exI [of _ s0] exI [of _ "curs s + n"]) simp
    qed
    then obtain s0 c where fl: "final ?l = Some s0" and s': "s' = s0\<lparr>curs := c\<rparr>" by blast
    from fsRead_loop_trace [OF fl] obtain tr where
      "s0 = s\<lparr>trace := trace s @ tr\<rparr>" "\<forall>e\<in>set tr. \<exists>d. e = BioRead d"
      "consistent s \<longrightarrow> distinct tr" by blast
    with s' show ?thesis by (intro exI [of _ c] exI [of _ tr]) simp
  qed
qed

lemma fsRead_count:
  assumes "fsRead s N out = Done (k, out') s'"
  shows "0 \<le> k \<and> curs s' = curs s + k"
proof -
  define t where "t = (if curs s + N > fsize s then fsize s - curs s else N)"
  show ?thesis
  proof (cases "t \<le> 0")
    case True
    with assms show ?thesis
      by (auto simp: fsRead_def bfsTell_def bfsGetSize_def Let_def t_def split: if_splits)
  next
    case False
    with assms obtain s0 where
      l: "fsRead_loop t s 0 (curs s smod BYTESPERBLOCK) (curs s sdiv BYTESPERBLOCK) out =
            Done (k, out') s0" and s': "s' = s0\<lparr>curs := curs s + k\<rparr>"
      by (auto simp: fsRead_def bfsTell_def bfsGetSize_def bfsSetCursor_def Let_def
                     t_def [symmetric] split: if_splits outcome.splits)
    from fsRead_loop_count [OF l] False have "k = t" by simp
    with False s' show ?thesis by simp
  qed
qed

subsection \<open>One block of a write\<close>

text \<open>
  An iteration of the write loop aborts only when the free list is empty, and then the
  state is untouched. When it returns it has bound the file block to a disk block (the
  one it had, or the head of the free list) and stored there the block buffer with the
  bytes of the source copied in.
\<close>

lemma fsWrite_block_Fatal:
  "fsWrite_block numb buf s w off fbn = Fatal e s' \<Longrightarrow> s' = s \<and> e = EDISKFULL"
  by (auto simp: fsWrite_block_def bfsFbnToDbn_def bfsAllocBlock_def bioRead_def Let_def
           split: option.splits list.splits if_splits)

lemma fsWrite_block_Done:
  assumes "fsWrite_block numb buf s w off fbn = Done n s'"
    and "0 \<le> off" "off < BYTESPERBLOCK" "w < numb"
  shows "\<exists>d tr blk. n = min (BYTESPERBLOCK - off) (numb - w) \<and>
           fbn2dbn s' = (fbn2dbn s)(fbn \<mapsto> d) \<and>
           disk s' = (disk s)(d := memcpy blk off buf w n) \<and>
           (blk = block_of s fbn \<or> off = 0 \<and> n = BYTESPERBLOCK) \<and>
           trace s' = trace s @ tr \<and> (tr = [BioWrite d] \<or> tr = [BioRead d, BioWrite d]) \<and>
           fsize s' = fsize s \<and> curs s' = curs s \<and>
           (fbn2dbn s fbn = Some d \<and> freelist s' = freelist s \<or>
            fbn2dbn s fbn = None \<and> freelist s = d # freelist s')"
proof (cases "fbn2dbn s fbn")
  case None
  with assms obtain d rest where fl: "freelist s = d # rest"
    by (auto simp: fsWrite_block_def bfsFbnToDbn_def bfsAllocBlock_def split: list.splits)
  with None assms have
    "n = min (BYTESPERBLOCK - off) (numb - w)"
    "s' = bioWrite (s\<lparr>fbn2dbn := (fbn2dbn s)(fbn \<mapsto> d), freelist := rest\<rparr>) d
            (memcpy zeroBlock off buf w n)"
    by (auto simp: fsWrite_block_def bfsFbnToDbn_def bfsAllocBlock_def Let_def min_def
             split: if_splits)
  with None fl show ?thesis
    by (intro exI [of _ d] exI [of _ "[BioWrite d]"] exI [of _ zeroBlock])
       (simp add: bioWrite_def block_of_def)
next
  case (Some d)
  show ?thesis
  proof (cases "off \<noteq> 0 \<or> numb - w < BYTESPERBLOCK")
    case True
    with Some assms have
      "n = min (BYTESPERBLOCK - off) (numb - w)"
      "s' = bioWrite (s\<lparr>trace := trace s @ [BioRead d]\<rparr>) d (memcpy (disk s d) off buf w n)"
      by (auto simp: fsWrite_block_def bfsFbnToDbn_def bioRead_def Let_def min_def
               split: if_splits)
    with Some show ?thesis
      by (intro exI [of _ d] exI [of _ "[BioRead d, BioWrite d]"] exI [of _ "disk s d"])
         (auto simp: bioWrite_def block_of_def)
  next
    case False
    with Some assms have
      "n = min (BYTESPERBLOCK - off) (numb - w)"
      "s' = bioWrite s d (memcpy zeroBlock off buf w n)"
      by (auto simp: fsWrite_block_def bfsFbnToDbn_def bioRead_def Let_def min_def
               split: if_splits)
    with Some False show ?thesis
      by (intro exI [of _ d] exI [of _ "[BioWrite d]"] exI [of _ zeroBlock])
         (auto simp: bioWrite_def block_of_def)
  qed
qed


lemma consistent_alloc:
  assumes "consistent s" "fbn2dbn s fbn = None" "freelist s = d # rest"
    and "fbn2dbn s' = (fbn2dbn s)(fbn \<mapsto> d)" "freelist s' = rest"
  shows "consistent s'"
proof -
  from assms(1,3) have fl: "distinct rest" "d \<notin> set rest"
    and bound: "\<And>f x. fbn2dbn s f = Some x \<Longrightarrow> x \<noteq> d \<and> x \<notin> set rest"
    and inj: "\<And>f g x. fbn2dbn s f = Some x \<Longrightarrow> fbn2dbn s g = Some x \<Longrightarrow> f = g"
    unfolding consistent_def by auto
  have "x \<notin> set (freelist s')" if "fbn2dbn s' f = Some x" for f x
    using that assms(4,5) fl bound [of f x] by (cases "f = fbn") auto
  moreover have "f = g" if "fbn2dbn s' f = Some x" "fbn2dbn s' g = Some x" for f g x
    using that assms(4) bound [of f x] bound [of g x] inj [of f x g]
    by (cases "f = fbn"; cases "g = fbn") auto
  ultimately show ?thesis using fl assms(5) unfolding consistent_def by blast
qed

lemma fsWrite_block_consistent:
  assumes "fsWrite_block numb buf s w off fbn = Done n s'"
    and "0 \<le> off" "off < BYTESPERBLOCK" "w < numb" and "consistent s"
  shows "consistent s'"
proof -
  from fsWrite_block_Done [OF assms(1-4)] obtain d where
    m: "fbn2dbn s' = (fbn2dbn s)(fbn \<mapsto> d)"
    and c: "fbn2dbn s fbn = Some d \<and> freelist s' = freelist s \<or>
            fbn2dbn s fbn = None \<and> freelist s = d # freelist s'"
    by blast
  from c show ?thesis
  proof
    assume a: "fbn2dbn s fbn = Some d \<and> freelist s' = freelist s"
    then have "fbn2dbn s' = fbn2dbn s" using m by (auto simp: fun_eq_iff)
    with a assms(5) show ?thesis by (simp add: consistent_def)
  next
    assume "fbn2dbn s fbn = None \<and> freelist s = d # freelist s'"
    with assms(5) m show ?thesis
      using consistent_alloc [of s fbn d "freelist s'" s'] by simp
  qed
qed

text \<open>
  Seen through the block map, an iteration changes the bytes it was asked to write and
  no other byte of the file: an existing block is read first unless it is wholly
  overwritten, and a new block starts from zeros, as an unallocated block reads.
\<close>

lemma fsWrite_block_file_byte:
  assumes "fsWrite_block numb buf s w off fbn = Done n s'"
    and "0 \<le> off" "off < BYTESPERBLOCK" "w < numb" and "consistent s"
  shows "file_byte s' p =
           (if fbn * BYTESPERBLOCK + off \<le> p \<and> p < fbn * BYTESPERBLOCK + off + n
            then buf (w + (p - (fbn * BYTESPERBLOCK + off))) else file_byte s p)"
proof -
  from fsWrite_block_Done [OF assms(1-4)] obtain d blk where
    n: "n = min (BYTESPERBLOCK - off) (numb - w)"
    and m: "fbn2dbn s' = (fbn2dbn s)(fbn \<mapsto> d)"
    and dk: "disk s' = (disk s)(d := memcpy blk off buf w n)"
    and blk: "blk = block_of s fbn \<or> off = 0 \<and> n = BYTESPERBLOCK"
    by blast
  have c': "consistent s'" using assms by (rule fsWrite_block_consistent)
  obtain q r where p: "p = q * BYTESPERBLOCK + r" "0 \<le> r" "r < BYTESPERBLOCK"
    "p div BYTESPERBLOCK = q" "p mod BYTESPERBLOCK = r" by (rule block_split)
  have nb: "0 < n" "off + n \<le> BYTESPERBLOCK" using assms n by (auto simp: min_def)
  show ?thesis
  proof (cases "q = fbn")
    case True
    then have "file_byte s' p = memcpy blk off buf w n r"
      using m dk p by (simp add: file_byte_def)
    moreover have "file_byte s p = block_of s fbn r"
      using p True by (simp add: file_byte_block_of)
    moreover have "(fbn * BYTESPERBLOCK + off \<le> p \<and> p < fbn * BYTESPERBLOCK + off + n) =
                     (off \<le> r \<and> r < off + n)"
      using p(1) True by auto
    moreover have "buf (w + (p - (fbn * BYTESPERBLOCK + off))) = buf (w + (r - off))"
      using p(1) True by (intro arg_cong [where f = buf]) simp
    moreover have "\<not> (off \<le> r \<and> r < off + n) \<Longrightarrow> blk r = block_of s fbn r"
      using blk p(2,3) by auto
    ultimately show ?thesis
      by (simp add: memcpy_def)
  next
    case False
    have out: "\<not> (fbn * BYTESPERBLOCK + off \<le> p \<and> p < fbn * BYTESPERBLOCK + off + n)"
    proof
      assume "fbn * BYTESPERBLOCK + off \<le> p \<and> p < fbn * BYTESPERBLOCK + off + n"
      with nb assms have "fbn * BYTESPERBLOCK \<le> p \<and> p < fbn * BYTESPERBLOCK + BYTESPERBLOCK"
        by auto
      then have "p div BYTESPERBLOCK = fbn" by (simp add: block_bounds)
      with False p show False by simp
    qed
    have "file_byte s' p = file_byte s p"
    proof (cases "fbn2dbn s q")
      case None
      with False m p show ?thesis by (simp add: file_byte_def)
    next
      case (Some d')
      with False m have "fbn2dbn s' q = Some d'" "fbn2dbn s' fbn = Some d" by auto
      with c' False have "d' \<noteq> d" unfolding consistent_def by blast
      with Some False m dk p show ?thesis by (simp add: file_byte_def)
    qed
    with out show ?thesis by auto
  qed
qed

subsection \<open>The write loop\<close>

lemma fsWrite_loop_final:
  assumes "final (fsWrite_loop numb buf s w off fbn) = Some s'"
    and "consistent s" "0 \<le> off" "off < BYTESPERBLOCK"
  shows "consistent s' \<and> fsize s' = fsize s \<and> curs s' = curs s \<and>
         fbn2dbn s \<subseteq>\<^sub>m fbn2dbn s' \<and>
         (\<exists>tr. trace s' = trace s @ tr \<and> distinct tr \<and>
            (\<forall>e\<in>set tr. \<exists>f d. fbn \<le> f \<and> fbn2dbn s' f = Some d \<and>
                             (e = BioRead d \<or> e = BioWrite d)))"
  using assms
proof (induction numb buf s w off fbn rule: fsWrite_loop.induct)
  case (1 numb buf s w off fbn)
  show ?case
  proof (cases "w < numb")
    case False
    with "1.prems" have "s' = s" by (simp add: fsWrite_loop.simps)
    then show ?thesis using "1.prems" by simp
  next
    case True
    show ?thesis
    proof (cases "fsWrite_block numb buf s w off fbn")
      case Undefined
      with True "1.prems" show ?thesis by (simp add: fsWrite_loop.simps)
    next
      case (Fatal e s0)
      with True "1.prems" have "s' = s0" by (simp add: fsWrite_loop.simps)
      with Fatal fsWrite_block_Fatal [of numb buf s w off fbn e s0] have "s' = s" by simp
      then show ?thesis using "1.prems" by simp
    next
      case (Done n s1)
      from fsWrite_block_Done [OF Done "1.prems"(3,4) True] obtain d tr1 where
        m: "fbn2dbn s1 = (fbn2dbn s)(fbn \<mapsto> d)"
        and tr1: "trace s1 = trace s @ tr1" "tr1 = [BioWrite d] \<or> tr1 = [BioRead d, BioWrite d]"
        and same: "fsize s1 = fsize s" "curs s1 = curs s"
        and c: "fbn2dbn s fbn = Some d \<or> fbn2dbn s fbn = None"
        by blast
      have c1: "consistent s1"
        using Done "1.prems"(3,4) True "1.prems"(2) by (rule fsWrite_block_consistent)
      have fin: "final (fsWrite_loop numb buf s1 (w + n) 0 (fbn + 1)) = Some s'"
        using True Done "1.prems"(1) by (subst (asm) fsWrite_loop.simps) simp
      from "1.IH" [OF True Done fin c1] BPB_pos obtain tr where
        c': "consistent s'" and sz: "fsize s' = fsize s1" "curs s' = curs s1"
        and le: "fbn2dbn s1 \<subseteq>\<^sub>m fbn2dbn s'"
        and tr: "trace s' = trace s1 @ tr" "distinct tr"
        and evs: "\<forall>e\<in>set tr. \<exists>f d. fbn + 1 \<le> f \<and> fbn2dbn s' f = Some d \<and>
                                 (e = BioRead d \<or> e = BioWrite d)"
        by auto
      have le0: "fbn2dbn s \<subseteq>\<^sub>m fbn2dbn s1"
        using m c by (auto simp: map_le_def)
      have here: "fbn2dbn s' fbn = Some d"
        using le m by (auto simp: map_le_def dom_def)
      have fresh: "e \<notin> set tr" if "e = BioRead d \<or> e = BioWrite d" for e
      proof
        assume "e \<in> set tr"
        with evs that obtain f where "fbn + 1 \<le> f" "fbn2dbn s' f = Some d" by auto
        with here c' have "f = fbn" unfolding consistent_def by blast
        with \<open>fbn + 1 \<le> f\<close> show False by simp
      qed
      have d: "distinct (tr1 @ tr)"
        using tr1(2) tr(2) fresh by auto
      have a: "\<forall>e\<in>set (tr1 @ tr). \<exists>f d. fbn \<le> f \<and> fbn2dbn s' f = Some d \<and>
                                 (e = BioRead d \<or> e = BioWrite d)"
      proof
        fix e assume "e \<in> set (tr1 @ tr)"
        then consider "e \<in> set tr1" | "e \<in> set tr" by auto
        then show "\<exists>f d. fbn \<le> f \<and> fbn2dbn s' f = Some d \<and> (e = BioRead d \<or> e = BioWrite d)"
        proof cases
          case 1
          with tr1(2) here show ?thesis by (intro exI [of _ fbn] exI [of _ d]) auto
        next
          case 2
          with evs obtain f d' where "fbn + 1 \<le> f" "fbn2dbn s' f = Some d'"
            "e = BioRead d' \<or> e = BioWrite d'" by auto
          then show ?thesis by (intro exI [of _ f] exI [of _ d']) simp
        qed
      qed
      have t: "trace s' = trace s @ (tr1 @ tr)" using tr(1) tr1(1) by simp
      have "fbn2dbn s \<subseteq>\<^sub>m fbn2dbn s'" using le0 le by (rule map_le_trans)
      moreover have "\<exists>tr. trace s' = trace s @ tr \<and> distinct tr \<and>
            (\<forall>e\<in>set tr. \<exists>f d. fbn \<le> f \<and> fbn2dbn s' f = Some d \<and>
                             (e = BioRead d \<or> e = BioWrite d))"
        using t d a by (intro exI [of _ "tr1 @ tr"] conjI)
      ultimately show ?thesis using c' sz same by simp
    qed
  qed
qed

lemma fsWrite_loop_Done:
  assumes "fsWrite_loop numb buf s w off fbn = Done r s'"
    and "consistent s" "0 \<le> off" "off < BYTESPERBLOCK" "w \<le> numb"
  shows "r = numb \<and>
         (\<forall>p. file_byte s' p =
            (if fbn * BYTESPERBLOCK + off \<le> p \<and> p < fbn * BYTESPERBLOCK + off + (numb - w)
             then buf (w + (p - (fbn * BYTESPERBLOCK + off))) else file_byte s p))"
  using assms
proof (induction numb buf s w off fbn rule: fsWrite_loop.induct)
  case (1 numb buf s w off fbn)
  show ?case
  proof (cases "w < numb")
    case False
    with "1.prems" have "s' = s" "r = w" "w = numb" by (simp_all add: fsWrite_loop.simps)
    then show ?thesis by auto
  next
    case True
    from True "1.prems"(1) obtain n s1 where
      blk: "fsWrite_block numb buf s w off fbn = Done n s1"
      and loop: "fsWrite_loop numb buf s1 (w + n) 0 (fbn + 1) = Done r s'"
      by (subst (asm) fsWrite_loop.simps) (auto split: outcome.splits)
    from fsWrite_block_Done [OF blk "1.prems"(3,4) True]
    have n: "n = min (BYTESPERBLOCK - off) (numb - w)" by blast
    then have nb: "0 < n" "w + n \<le> numb" "off + n \<le> BYTESPERBLOCK"
      using True "1.prems" by (auto simp: min_def)
    have c1: "consistent s1"
      using blk "1.prems"(3,4) True "1.prems"(2) by (rule fsWrite_block_consistent)
    have b1: "file_byte s1 p =
           (if fbn * BYTESPERBLOCK + off \<le> p \<and> p < fbn * BYTESPERBLOCK + off + n
            then buf (w + (p - (fbn * BYTESPERBLOCK + off))) else file_byte s p)" for p
      using blk "1.prems"(3,4) True "1.prems"(2) by (rule fsWrite_block_file_byte)
    from "1.IH" [OF True blk loop c1] BPB_pos nb
    have r: "r = numb"
      and b2: "\<And>p. file_byte s' p =
            (if (fbn + 1) * BYTESPERBLOCK + 0 \<le> p \<and>
                p < (fbn + 1) * BYTESPERBLOCK + 0 + (numb - (w + n))
             then buf (w + n + (p - ((fbn + 1) * BYTESPERBLOCK + 0))) else file_byte s1 p)"
      by auto
    have "file_byte s' p =
            (if fbn * BYTESPERBLOCK + off \<le> p \<and> p < fbn * BYTESPERBLOCK + off + (numb - w)
             then buf (w + (p - (fbn * BYTESPERBLOCK + off))) else file_byte s p)" for p
    proof (cases "w + n = numb")
      case True
      with b1 [of p] b2 [of p] show ?thesis by auto
    next
      case False
      with n have full: "n = BYTESPERBLOCK - off" by (auto simp: min_def split: if_splits)
      have e1: "(fbn + 1) * BYTESPERBLOCK + 0 = fbn * BYTESPERBLOCK + off + n"
        using full by (simp add: algebra_simps)
      have "buf (w + n + (p - ((fbn + 1) * BYTESPERBLOCK + 0))) =
            buf (w + (p - (fbn * BYTESPERBLOCK + off)))"
        unfolding e1 by (intro arg_cong [where f = buf]) simp
      with b1 [of p] b2 [of p] nb show ?thesis unfolding e1 by auto
    qed
    with r show ?thesis by simp
  qed
qed

subsection \<open>The gap loop\<close>

lemma gap_resolve:
  assumes "(case bfsFbnToDbn s fbn of None \<Rightarrow> bfsAllocBlock s fbn | Some dbn \<Rightarrow> Done dbn s) = r"
  shows "r = Fatal EDISKFULL s \<or>
         (\<exists>d s1. r = Done d s1 \<and> fbn2dbn s1 = (fbn2dbn s)(fbn \<mapsto> d) \<and> disk s1 = disk s \<and>
            trace s1 = trace s \<and> fsize s1 = fsize s \<and> curs s1 = curs s \<and>
            fbn2dbn s \<subseteq>\<^sub>m fbn2dbn s1 \<and> (consistent s \<longrightarrow> consistent s1))"
proof (cases "fbn2dbn s fbn")
  case (Some d)
  then have "fbn2dbn s = (fbn2dbn s)(fbn \<mapsto> d)" by (auto simp: fun_eq_iff)
  with Some assms show ?thesis by (auto simp: bfsFbnToDbn_def)
next
  case None
  show ?thesis
  proof (cases "freelist s")
    case Nil
    with None assms show ?thesis by (simp add: bfsFbnToDbn_def bfsAllocBlock_def)
  next
    case (Cons d rest)
    define s1 where "s1 = s\<lparr>fbn2dbn := (fbn2dbn s)(fbn \<mapsto> d), freelist := rest\<rparr>"
    have "r = Done d s1"
      using None Cons assms by (simp add: bfsFbnToDbn_def bfsAllocBlock_def s1_def)
    moreover have "consistent s \<longrightarrow> consistent s1"
      using consistent_alloc [of s fbn d rest s1] None Cons by (simp add: s1_def)
    moreover have "fbn2dbn s \<subseteq>\<^sub>m fbn2dbn s1"
      using None by (auto simp: s1_def map_le_def)
    ultimately show ?thesis by (simp add: s1_def)
  qed
qed

lemma file_byte_zero_block:
  assumes "consistent s1" "fbn2dbn s1 fbn = Some d"
  shows "file_byte (bioWrite s1 d zeroBlock) p =
           (if p div BYTESPERBLOCK = fbn then 0 else file_byte s1 p)"
proof (cases "fbn2dbn s1 (p div BYTESPERBLOCK)")
  case None
  with assms show ?thesis by (auto simp: file_byte_def bioWrite_def)
next
  case (Some d')
  show ?thesis
  proof (cases "p div BYTESPERBLOCK = fbn")
    case True
    with assms Some show ?thesis by (simp add: file_byte_def bioWrite_def zeroBlock_def)
  next
    case False
    with assms Some have "d' \<noteq> d" unfolding consistent_def by blast
    with False Some show ?thesis by (simp add: file_byte_def bioWrite_def)
  qed
qed

lemma consistent_bioWrite [simp]: "consistent (bioWrite s d b) = consistent s"
  by (simp add: consistent_def bioWrite_def)

lemma gap_next:
  "(g + BYTESPERBLOCK) div BYTESPERBLOCK = g div BYTESPERBLOCK + 1"
  "(g + BYTESPERBLOCK) mod BYTESPERBLOCK = g mod BYTESPERBLOCK"
  by (simp_all add: BYTESPERBLOCK_def)

lemma fsWrite_gap_unfold:
  assumes "g < c" "0 \<le> g" "final (fsWrite_gap s c g) = Some s'"
  shows "s' = s \<and> fsWrite_gap s c g = Fatal EDISKFULL s \<or>
         (\<exists>d s1. fbn2dbn s1 = (fbn2dbn s)(g div BYTESPERBLOCK \<mapsto> d) \<and> disk s1 = disk s \<and>
            trace s1 = trace s \<and> fsize s1 = fsize s \<and> curs s1 = curs s \<and>
            fbn2dbn s \<subseteq>\<^sub>m fbn2dbn s1 \<and> (consistent s \<longrightarrow> consistent s1) \<and>
            i32 (g + BYTESPERBLOCK) \<and>
            fsWrite_gap s c g = fsWrite_gap (bioWrite s1 d zeroBlock) c (g + BYTESPERBLOCK))"
proof -
  define r where "r = (case bfsFbnToDbn s (g div BYTESPERBLOCK) of
               None \<Rightarrow> bfsAllocBlock s (g div BYTESPERBLOCK) | Some dbn \<Rightarrow> Done dbn s)"
  from gap_resolve [OF r_def [symmetric]] show ?thesis
  proof
    assume "r = Fatal EDISKFULL s"
    then have "fsWrite_gap s c g = Fatal EDISKFULL s"
      using assms(1,2) by (subst fsWrite_gap.simps) (simp add: sdiv_BPB r_def [symmetric])
    with assms(3) show ?thesis by simp
  next
    assume "\<exists>d s1. r = Done d s1 \<and> fbn2dbn s1 = (fbn2dbn s)(g div BYTESPERBLOCK \<mapsto> d) \<and>
       disk s1 = disk s \<and> trace s1 = trace s \<and> fsize s1 = fsize s \<and> curs s1 = curs s \<and>
       fbn2dbn s \<subseteq>\<^sub>m fbn2dbn s1 \<and> (consistent s \<longrightarrow> consistent s1)"
    then obtain d s1 where r: "r = Done d s1"
      and rest: "fbn2dbn s1 = (fbn2dbn s)(g div BYTESPERBLOCK \<mapsto> d)" "disk s1 = disk s"
        "trace s1 = trace s" "fsize s1 = fsize s" "curs s1 = curs s"
        "fbn2dbn s \<subseteq>\<^sub>m fbn2dbn s1" "consistent s \<longrightarrow> consistent s1"
      by blast
    have step: "fsWrite_gap s c g =
            (if \<not> i32 (g + BYTESPERBLOCK) then Undefined
             else fsWrite_gap (bioWrite s1 d zeroBlock) c (g + BYTESPERBLOCK))"
      using assms(1,2) r by (subst fsWrite_gap.simps) (simp add: sdiv_BPB r_def [symmetric])
    with assms(3) have "i32 (g + BYTESPERBLOCK)" by (auto split: if_splits)
    with step rest show ?thesis
      by (intro disjI2 exI [of _ d] exI [of _ s1]) simp
  qed
qed

lemma fsWrite_gap_final:
  assumes "final (fsWrite_gap s c g) = Some s'" and "consistent s" "0 \<le> g"
  shows "consistent s' \<and> fsize s' = fsize s \<and> curs s' = curs s \<and>
         fbn2dbn s \<subseteq>\<^sub>m fbn2dbn s' \<and>
         (\<exists>tr. trace s' = trace s @ tr \<and> distinct tr \<and>
            (\<forall>e\<in>set tr. \<exists>f d. g div BYTESPERBLOCK \<le> f \<and> fbn2dbn s' f = Some d \<and>
                             e = BioWrite d))"
  using assms
proof (induction "nat (c - g)" arbitrary: s g rule: less_induct)
  case less
  show ?case
  proof (cases "g < c")
    case False
    then have "fsWrite_gap s c g = Done () s" by (simp add: fsWrite_gap.simps)
    with less.prems have "s' = s" by simp
    then show ?thesis using less.prems by simp
  next
    case True
    from fsWrite_gap_unfold [OF True less.prems(3,1)] show ?thesis
    proof (elim disjE exE conjE)
      assume "s' = s"
      then show ?thesis using less.prems by simp
    next
      fix d s1
      assume m: "fbn2dbn s1 = (fbn2dbn s)(g div BYTESPERBLOCK \<mapsto> d)"
        and same: "disk s1 = disk s" "trace s1 = trace s" "fsize s1 = fsize s" "curs s1 = curs s"
        and le1: "fbn2dbn s \<subseteq>\<^sub>m fbn2dbn s1"
        and c1: "consistent s \<longrightarrow> consistent s1"
        and step: "fsWrite_gap s c g = fsWrite_gap (bioWrite s1 d zeroBlock) c (g + BYTESPERBLOCK)"
      define s2 where "s2 = bioWrite s1 d zeroBlock"
      have fin: "final (fsWrite_gap s2 c (g + BYTESPERBLOCK)) = Some s'"
        using less.prems(1) step by (simp add: s2_def)
      have c2: "consistent s2" using c1 less.prems(2) by (simp add: s2_def)
      have dec: "nat (c - (g + BYTESPERBLOCK)) < nat (c - g)"
        using True BPB_pos by simp
      have g2: "0 \<le> g + BYTESPERBLOCK" using less.prems(3) BPB_pos by simp
      from less.hyps [OF dec fin c2 g2] obtain tr where
        c': "consistent s'" and sz: "fsize s' = fsize s2" "curs s' = curs s2"
        and le: "fbn2dbn s2 \<subseteq>\<^sub>m fbn2dbn s'"
        and tr: "trace s' = trace s2 @ tr" "distinct tr"
        and evs: "\<forall>e\<in>set tr. \<exists>f d. g div BYTESPERBLOCK + 1 \<le> f \<and> fbn2dbn s' f = Some d \<and>
                                 e = BioWrite d"
        by (auto simp: gap_next)
      have s2: "fbn2dbn s2 = fbn2dbn s1" "trace s2 = trace s @ [BioWrite d]"
        "fsize s2 = fsize s" "curs s2 = curs s"
        using same by (simp_all add: s2_def bioWrite_def)
      have le0: "fbn2dbn s \<subseteq>\<^sub>m fbn2dbn s2"
        unfolding s2(1) by (rule le1)
      have here: "fbn2dbn s' (g div BYTESPERBLOCK) = Some d"
        using le m s2(1) by (auto simp: map_le_def dom_def)
      have fresh: "BioWrite d \<notin> set tr"
      proof
        assume "BioWrite d \<in> set tr"
        with evs obtain f where "g div BYTESPERBLOCK + 1 \<le> f" "fbn2dbn s' f = Some d" by auto
        with here c' have "f = g div BYTESPERBLOCK" unfolding consistent_def by blast
        with \<open>g div BYTESPERBLOCK + 1 \<le> f\<close> show False by simp
      qed
      have d: "distinct ([BioWrite d] @ tr)" using tr(2) fresh by simp
      have a: "\<forall>e\<in>set ([BioWrite d] @ tr). \<exists>f d. g div BYTESPERBLOCK \<le> f \<and>
                  fbn2dbn s' f = Some d \<and> e = BioWrite d"
      proof
        fix e assume "e \<in> set ([BioWrite d] @ tr)"
        then consider "e = BioWrite d" | "e \<in> set tr" by auto
        then show "\<exists>f d. g div BYTESPERBLOCK \<le> f \<and> fbn2dbn s' f = Some d \<and> e = BioWrite d"
        proof cases
          case 1
          with here show ?thesis by (intro exI [of _ "g div BYTESPERBLOCK"] exI [of _ d]) simp
        next
          case 2
          with evs obtain f d' where "g div BYTESPERBLOCK + 1 \<le> f" "fbn2dbn s' f = Some d'"
            "e = BioWrite d'" by auto
          then show ?thesis by (intro exI [of _ f] exI [of _ d']) simp
        qed
      qed
      have t: "trace s' = trace s @ ([BioWrite d] @ tr)" using tr(1) s2(2) by simp
      have "fbn2dbn s \<subseteq>\<^sub>m fbn2dbn s'" using le0 le by (rule map_le_trans)
      moreover have "\<exists>tr. trace s' = trace s @ tr \<and> distinct tr \<and>
            (\<forall>e\<in>set tr. \<exists>f d. g div BYTESPERBLOCK \<le> f \<and> fbn2dbn s' f = Some d \<and>
                             e = BioWrite d)"
        using t d a by (intro exI [of _ "[BioWrite d] @ tr"] conjI)
      ultimately show ?thesis using c' sz s2 by simp
    qed
  qed
qed

text \<open>
  The gap loop zeroes the whole of every file block from the block of \<open>g\<close> on whose
  position at the block offset of \<open>g\<close> lies before the cursor. It starts at the old size,
  so the first of these blocks is zeroed from its start, below the old size.
\<close>

lemma fsWrite_gap_Done:
  assumes "fsWrite_gap s c g = Done u s'" and "consistent s" "0 \<le> g"
  shows "file_byte s' p =
           (if g div BYTESPERBLOCK \<le> p div BYTESPERBLOCK \<and>
               (p div BYTESPERBLOCK) * BYTESPERBLOCK + g mod BYTESPERBLOCK < c
            then 0 else file_byte s p)"
  using assms
proof (induction "nat (c - g)" arbitrary: s g rule: less_induct)
  case less
  have gsplit: "g = (g div BYTESPERBLOCK) * BYTESPERBLOCK + g mod BYTESPERBLOCK" by simp
  have gm: "0 \<le> g mod BYTESPERBLOCK" "g mod BYTESPERBLOCK < BYTESPERBLOCK"
    using BPB_pos by simp_all
  show ?case
  proof (cases "g < c")
    case False
    then have "fsWrite_gap s c g = Done () s" by (simp add: fsWrite_gap.simps)
    with less.prems have "s' = s" by simp
    moreover have "\<not> (g div BYTESPERBLOCK \<le> p div BYTESPERBLOCK \<and>
               (p div BYTESPERBLOCK) * BYTESPERBLOCK + g mod BYTESPERBLOCK < c)"
    proof
      assume a: "g div BYTESPERBLOCK \<le> p div BYTESPERBLOCK \<and>
               (p div BYTESPERBLOCK) * BYTESPERBLOCK + g mod BYTESPERBLOCK < c"
      then have "(g div BYTESPERBLOCK) * BYTESPERBLOCK \<le> (p div BYTESPERBLOCK) * BYTESPERBLOCK"
        using BPB_pos by (simp add: mult_right_mono)
      with gsplit a False show False by linarith
    qed
    ultimately show ?thesis by auto
  next
    case True
    have fin: "final (fsWrite_gap s c g) = Some s'" using less.prems(1) by simp
    from fsWrite_gap_unfold [OF True less.prems(3) fin] less.prems(1)
    obtain d s1 where m: "fbn2dbn s1 = (fbn2dbn s)(g div BYTESPERBLOCK \<mapsto> d)"
        and same: "disk s1 = disk s"
        and c1: "consistent s \<longrightarrow> consistent s1"
        and step: "fsWrite_gap s c g = fsWrite_gap (bioWrite s1 d zeroBlock) c (g + BYTESPERBLOCK)"
      by auto
    define s2 where "s2 = bioWrite s1 d zeroBlock"
    have run: "fsWrite_gap s2 c (g + BYTESPERBLOCK) = Done u s'"
      using less.prems(1) step by (simp add: s2_def)
    have c1': "consistent s1" using c1 less.prems(2) by simp
    have c2: "consistent s2" using c1' by (simp add: s2_def)
    have dec: "nat (c - (g + BYTESPERBLOCK)) < nat (c - g)"
      using True BPB_pos by simp
    have g2: "0 \<le> g + BYTESPERBLOCK" using less.prems(3) BPB_pos by simp
    have ih: "file_byte s' p =
           (if g div BYTESPERBLOCK + 1 \<le> p div BYTESPERBLOCK \<and>
               (p div BYTESPERBLOCK) * BYTESPERBLOCK + g mod BYTESPERBLOCK < c
            then 0 else file_byte s2 p)"
      using less.hyps [OF dec run c2 g2] by (simp add: gap_next)
    have z: "file_byte s2 p = (if p div BYTESPERBLOCK = g div BYTESPERBLOCK then 0 else file_byte s1 p)"
    proof -
      have "fbn2dbn s1 (g div BYTESPERBLOCK) = Some d" unfolding m by simp
      with c1' show ?thesis unfolding s2_def by (rule file_byte_zero_block)
    qed
    have s1: "p div BYTESPERBLOCK \<noteq> g div BYTESPERBLOCK \<Longrightarrow> file_byte s1 p = file_byte s p"
      using m same by (simp add: file_byte_def split: option.splits)
    have here: "(g div BYTESPERBLOCK) * BYTESPERBLOCK + g mod BYTESPERBLOCK < c"
      using True by simp
    show ?thesis
    proof (cases "p div BYTESPERBLOCK = g div BYTESPERBLOCK")
      case True
      with ih z here show ?thesis by simp
    next
      case False
      with ih z s1 show ?thesis by auto
    qed
  qed
qed

subsection \<open>The extension\<close>

text \<open>
  \<^verbatim>\<open>bfsExtend\<close> binds free disk blocks and touches nothing else: not the block store, the
  trace, the size or the cursor.
\<close>

lemma bfsExtend_loop_final:
  assumes "final (bfsExtend_loop s f fbn) = Some s'"
  shows "fsize s' = fsize s \<and> curs s' = curs s \<and> trace s' = trace s \<and> disk s' = disk s \<and>
         fbn2dbn s \<subseteq>\<^sub>m fbn2dbn s' \<and> (consistent s \<longrightarrow> consistent s')"
  using assms
proof (induction "nat (fbn + 1 - f)" arbitrary: s f rule: less_induct)
  case less
  show ?case
  proof (cases "f \<le> fbn")
    case False
    with less.prems have "s' = s" by (simp add: bfsExtend_loop.simps)
    then show ?thesis by simp
  next
    case True
    define r where "r = (case bfsFbnToDbn s f of
               None \<Rightarrow> bfsAllocBlock s f | Some dbn \<Rightarrow> Done dbn s)"
    from gap_resolve [OF r_def [symmetric]] show ?thesis
    proof (elim disjE exE conjE)
      assume "r = Fatal EDISKFULL s"
      with True less.prems have "s' = s"
        by (subst (asm) bfsExtend_loop.simps) (simp add: r_def [symmetric])
      then show ?thesis by simp
    next
      fix d s1
      assume r: "r = Done d s1"
        and same: "disk s1 = disk s" "trace s1 = trace s" "fsize s1 = fsize s" "curs s1 = curs s"
        and le1: "fbn2dbn s \<subseteq>\<^sub>m fbn2dbn s1"
        and c1: "consistent s \<longrightarrow> consistent s1"
      from True r less.prems have fin: "final (bfsExtend_loop s1 (f + 1) fbn) = Some s'"
        by (subst (asm) bfsExtend_loop.simps) (simp add: r_def [symmetric])
      have dec: "nat (fbn + 1 - (f + 1)) < nat (fbn + 1 - f)" using True by simp
      from less.hyps [OF dec fin] have
        "fsize s' = fsize s1" "curs s' = curs s1" "trace s' = trace s1" "disk s' = disk s1"
        "fbn2dbn s1 \<subseteq>\<^sub>m fbn2dbn s'" "consistent s1 \<longrightarrow> consistent s'"
        by simp_all
      moreover from le1 this(5) have "fbn2dbn s \<subseteq>\<^sub>m fbn2dbn s'" by (rule map_le_trans)
      ultimately show ?thesis using same c1 by simp
    qed
  qed
qed

lemma bfsExtend_final:
  assumes "final (bfsExtend s fbn) = Some s'"
  shows "fsize s' = fsize s \<and> curs s' = curs s \<and> trace s' = trace s \<and> disk s' = disk s \<and>
         fbn2dbn s \<subseteq>\<^sub>m fbn2dbn s' \<and> (consistent s \<longrightarrow> consistent s')"
  using assms unfolding bfsExtend_def by (rule bfsExtend_loop_final)

text \<open>The steps of the extension of a file by \<^verbatim>\<open>fsWrite\<close>, for a call that returns or aborts.\<close>

lemma fsWrite_extend_finalE:
  assumes "final (fsWrite_extend s c n sz) = Some s1" and "sz < c + n"
  obtains s0 sg where "final (bfsExtend s ((c + n - 1) sdiv BYTESPERBLOCK)) = Some s0"
    and "sg = s0 \<or> sz < c \<and> final (fsWrite_gap s0 c sz) = Some sg"
    and "s1 = sg \<or> s1 = sg\<lparr>fsize := c + n\<rparr>"
proof (cases "bfsExtend s ((c + n - 1) sdiv BYTESPERBLOCK)")
  case Undefined
  with assms show ?thesis by (simp add: fsWrite_extend_def Let_def)
next
  case (Fatal e s0)
  with assms have "s1 = s0" by (simp add: fsWrite_extend_def Let_def)
  with Fatal show ?thesis by (intro that [of s0 s0]) simp_all
next
  case (Done u s0)
  show ?thesis
  proof (cases "sz < c")
    case False
    with Done assms have "s1 = s0\<lparr>fsize := c + n\<rparr>"
      by (simp add: fsWrite_extend_def bfsSetSize_def Let_def)
    with Done show ?thesis by (intro that [of s0 s0]) simp_all
  next
    case True
    show ?thesis
    proof (cases "fsWrite_gap s0 c sz")
      case Undefined
      with Done True assms show ?thesis by (simp add: fsWrite_extend_def Let_def)
    next
      case g: (Fatal e sg)
      with Done True assms have "s1 = sg" by (simp add: fsWrite_extend_def Let_def)
      with Done True g show ?thesis by (intro that [of s0 sg]) simp_all
    next
      case g: (Done u' sg)
      with Done True assms have "s1 = sg\<lparr>fsize := c + n\<rparr>"
        by (simp add: fsWrite_extend_def bfsSetSize_def Let_def)
      with Done True g show ?thesis by (intro that [of s0 sg]) simp_all
    qed
  qed
qed

lemma fsWrite_extend_DoneE:
  assumes "fsWrite_extend s c n sz = Done u s1" and "sz < c + n"
  obtains s0 sg where "bfsExtend s ((c + n - 1) sdiv BYTESPERBLOCK) = Done () s0"
    and "\<not> sz < c \<and> sg = s0 \<or> sz < c \<and> fsWrite_gap s0 c sz = Done () sg"
    and "s1 = sg\<lparr>fsize := c + n\<rparr>"
proof (cases "sz < c")
  case False
  with assms obtain s0 where "bfsExtend s ((c + n - 1) sdiv BYTESPERBLOCK) = Done () s0"
    "s1 = s0\<lparr>fsize := c + n\<rparr>"
    by (auto simp: fsWrite_extend_def bfsSetSize_def Let_def split: outcome.splits)
  with False show ?thesis by (intro that [of s0 s0]) simp_all
next
  case True
  with assms obtain s0 sg where "bfsExtend s ((c + n - 1) sdiv BYTESPERBLOCK) = Done () s0"
    "fsWrite_gap s0 c sz = Done () sg" "s1 = sg\<lparr>fsize := c + n\<rparr>"
    by (auto simp: fsWrite_extend_def bfsSetSize_def Let_def split: outcome.splits)
  with True show ?thesis by (intro that [of s0 sg]) simp_all
qed

subsection \<open>Size and cursor\<close>

lemma fsWrite_block_frame:
  "final (fsWrite_block numb buf s w off fbn) = Some s' \<Longrightarrow>
   fsize s' = fsize s \<and> curs s' = curs s"
  by (auto simp: fsWrite_block_def bfsFbnToDbn_def bfsAllocBlock_def bioRead_def bioWrite_def
                 Let_def split: option.splits list.splits if_splits)

lemma fsWrite_block_count:
  "fsWrite_block numb buf s w off fbn = Done n s' \<Longrightarrow> w < numb \<Longrightarrow> w + n \<le> numb"
  by (auto simp: fsWrite_block_def bfsFbnToDbn_def bfsAllocBlock_def bioRead_def bioWrite_def
                 Let_def split: option.splits list.splits if_splits)

lemma fsWrite_loop_frame:
  "final (fsWrite_loop numb buf s w off fbn) = Some s' \<Longrightarrow>
   fsize s' = fsize s \<and> curs s' = curs s"
proof (induction numb buf s w off fbn rule: fsWrite_loop.induct)
  case (1 numb buf s w off fbn)
  show ?case
  proof (cases "w < numb")
    case False
    with "1.prems" show ?thesis by (simp add: fsWrite_loop.simps)
  next
    case True
    show ?thesis
    proof (cases "fsWrite_block numb buf s w off fbn")
      case Undefined
      with True "1.prems" show ?thesis by (simp add: fsWrite_loop.simps)
    next
      case (Fatal e s0)
      with True "1.prems" have "s' = s0" by (simp add: fsWrite_loop.simps)
      with Fatal fsWrite_block_frame [of numb buf s w off fbn s0] show ?thesis by simp
    next
      case (Done n s1)
      with True "1.prems" have "final (fsWrite_loop numb buf s1 (w + n) 0 (fbn + 1)) = Some s'"
        by (subst (asm) fsWrite_loop.simps) simp
      from "1.IH" [OF True Done this] Done fsWrite_block_frame [of numb buf s w off fbn s1]
      show ?thesis by simp
    qed
  qed
qed

lemma fsWrite_loop_count:
  "fsWrite_loop numb buf s w off fbn = Done r s' \<Longrightarrow> w \<le> numb \<Longrightarrow> r = numb"
proof (induction numb buf s w off fbn rule: fsWrite_loop.induct)
  case (1 numb buf s w off fbn)
  show ?case
  proof (cases "w < numb")
    case False
    with "1.prems" show ?thesis by (simp add: fsWrite_loop.simps)
  next
    case True
    from True "1.prems"(1) obtain n s1 where
      blk: "fsWrite_block numb buf s w off fbn = Done n s1"
      and loop: "fsWrite_loop numb buf s1 (w + n) 0 (fbn + 1) = Done r s'"
      by (subst (asm) fsWrite_loop.simps) (auto split: outcome.splits)
    from "1.IH" [OF True blk loop] fsWrite_block_count [OF blk True] show ?thesis by simp
  qed
qed

lemma fsWrite_gap_frame:
  "final (fsWrite_gap s c g) = Some s' \<Longrightarrow> fsize s' = fsize s \<and> curs s' = curs s"
proof (induction s c g rule: fsWrite_gap.induct)
  case (1 s c g)
  show ?case
  proof (cases "g < c")
    case False
    with "1.prems" show ?thesis by (simp add: fsWrite_gap.simps)
  next
    case True
    define r where "r = (case bfsFbnToDbn s (g sdiv BYTESPERBLOCK) of
               None \<Rightarrow> bfsAllocBlock s (g sdiv BYTESPERBLOCK) | Some dbn \<Rightarrow> Done dbn s)"
    from gap_resolve [OF r_def [symmetric]] show ?thesis
    proof (elim disjE exE conjE)
      assume "r = Fatal EDISKFULL s"
      with True "1.prems" show ?thesis
        by (subst (asm) fsWrite_gap.simps) (simp add: r_def [symmetric])
    next
      fix d s1
      assume r: "r = Done d s1" and same: "fsize s1 = fsize s" "curs s1 = curs s"
      show ?thesis
      proof (cases "i32 (g + BYTESPERBLOCK)")
        case False
        with True r "1.prems" show ?thesis
          by (subst (asm) fsWrite_gap.simps) (simp add: r_def [symmetric])
      next
        case i: True
        with True r "1.prems"
        have fin: "final (fsWrite_gap (bioWrite s1 d zeroBlock) c (g + BYTESPERBLOCK)) = Some s'"
          by (subst (asm) fsWrite_gap.simps) (simp add: r_def [symmetric])
        from "1.IH" [OF True refl r [unfolded r_def] refl _ fin] i same show ?thesis
          by (simp add: bioWrite_def)
      qed
    qed
  qed
qed


lemma fsWrite_extend_frame:
  assumes "final (fsWrite_extend s c n sz) = Some s1"
  shows "curs s1 = curs s \<and> (fsize s1 = fsize s \<or> sz < c + n \<and> fsize s1 = c + n)"
proof (cases "sz < c + n")
  case False
  with assms show ?thesis by (simp add: fsWrite_extend_def)
next
  case True
  from assms True obtain s0 sg where
    e: "final (bfsExtend s ((c + n - 1) sdiv BYTESPERBLOCK)) = Some s0"
    and g: "sg = s0 \<or> sz < c \<and> final (fsWrite_gap s0 c sz) = Some sg"
    and s1: "s1 = sg \<or> s1 = sg\<lparr>fsize := c + n\<rparr>"
    by (rule fsWrite_extend_finalE)
  from bfsExtend_final [OF e] have "fsize s0 = fsize s" "curs s0 = curs s" by simp_all
  moreover from g fsWrite_gap_frame [of s0 c sz sg] have "fsize sg = fsize s0" "curs sg = curs s0"
    by auto
  ultimately show ?thesis using s1 True by auto
qed

lemma fsWrite_extend_size:
  assumes "fsWrite_extend s c n sz = Done u s1"
  shows "fsize s1 = (if c + n > sz then c + n else fsize s)"
proof (cases "sz < c + n")
  case False
  with assms show ?thesis by (simp add: fsWrite_extend_def)
next
  case True
  from assms True obtain sg where "s1 = sg\<lparr>fsize := c + n\<rparr>" by (rule fsWrite_extend_DoneE)
  with True show ?thesis by simp
qed

lemma fsWrite_frame:
  assumes "final (fsWrite s N buf) = Some s'"
  shows "fsize s' = fsize s \<or> fsize s < curs s + N \<and> fsize s' = curs s + N"
proof (cases "N \<le> 0")
  case True
  with assms show ?thesis by (simp add: fsWrite_def)
next
  case False
  show ?thesis
  proof (cases "fsWrite_extend s (curs s) N (fsize s)")
    case Undefined
    with False assms show ?thesis
      by (simp add: fsWrite_def bfsTell_def bfsGetSize_def Let_def split: if_splits)
  next
    case (Fatal e s0)
    with False assms have "s' = s0"
      by (simp add: fsWrite_def bfsTell_def bfsGetSize_def Let_def split: if_splits)
    with Fatal fsWrite_extend_frame [of s "curs s" N "fsize s" s0] show ?thesis by simp
  next
    case (Done u s1)
    from Done fsWrite_extend_frame [of s "curs s" N "fsize s" s1]
    have s1: "fsize s1 = fsize s \<or> fsize s < curs s + N \<and> fsize s1 = curs s + N" by simp
    let ?l = "fsWrite_loop N buf s1 0 (curs s smod BYTESPERBLOCK) (curs s sdiv BYTESPERBLOCK)"
    show ?thesis
    proof (cases ?l)
      case Undefined
      with False Done assms show ?thesis
        by (simp add: fsWrite_def bfsTell_def bfsGetSize_def Let_def split: if_splits)
    next
      case (Fatal e s2)
      with False Done assms have "s' = s2"
        by (simp add: fsWrite_def bfsTell_def bfsGetSize_def Let_def split: if_splits)
      moreover from Fatal have "final ?l = Some s2" by simp
      ultimately show ?thesis using fsWrite_loop_frame [of N buf s1 0 _ _ s2] s1 by auto
    next
      case l: (Done w s2)
      with False Done assms have "s' = s2\<lparr>curs := curs s + w\<rparr>"
        by (simp add: fsWrite_def bfsTell_def bfsGetSize_def bfsSetCursor_def Let_def
                 split: if_splits)
      moreover from l have "final ?l = Some s2" by simp
      ultimately show ?thesis using fsWrite_loop_frame [of N buf s1 0 _ _ s2] s1 by auto
    qed
  qed
qed

lemma fsWrite_overflow:
  "0 < N \<Longrightarrow> \<not> i32 (curs s + N) \<Longrightarrow> fsWrite s N buf = Undefined"
  by (simp add: fsWrite_def bfsTell_def Let_def)

lemma fsWrite_DoneE:
  assumes "fsWrite s N buf = Done r s'"
  obtains u s1 w s2 where "0 < N" "i32 (curs s + N)"
    "fsWrite_extend s (curs s) N (fsize s) = Done u s1"
    "fsWrite_loop N buf s1 0 (curs s smod BYTESPERBLOCK) (curs s sdiv BYTESPERBLOCK) = Done w s2"
    "r = 0" "s' = s2\<lparr>curs := curs s + w\<rparr>"
  using assms
  by (auto simp: fsWrite_def bfsTell_def bfsGetSize_def bfsSetCursor_def Let_def
           split: if_splits outcome.splits)

lemma fsWrite_Done_frame:
  assumes "fsWrite s N buf = Done r s'"
  shows "r = 0 \<and> curs s' = curs s + N \<and>
         fsize s' = (if curs s + N > fsize s then curs s + N else fsize s)"
proof -
  from assms obtain u s1 w s2 where N: "0 < N"
    and e: "fsWrite_extend s (curs s) N (fsize s) = Done u s1"
    and l: "fsWrite_loop N buf s1 0 (curs s smod BYTESPERBLOCK) (curs s sdiv BYTESPERBLOCK) = Done w s2"
    and r: "r = 0" "s' = s2\<lparr>curs := curs s + w\<rparr>"
    by (rule fsWrite_DoneE)
  from l N have "w = N" by (intro fsWrite_loop_count [OF l]) simp
  moreover have "fsize s2 = fsize s1"
  proof -
    from l have "final (fsWrite_loop N buf s1 0 (curs s smod BYTESPERBLOCK)
                    (curs s sdiv BYTESPERBLOCK)) = Some s2" by simp
    then show ?thesis using fsWrite_loop_frame by blast
  qed
  ultimately show ?thesis using r fsWrite_extend_size [OF e] by simp
qed

lemma fsSeek_frame:
  assumes "final (fsSeek s offset whence) = Some s'"
  shows "\<exists>c. s' = s\<lparr>curs := c\<rparr>"
proof -
  have "\<exists>c. s = s\<lparr>curs := c\<rparr>" by (rule exI [of _ "curs s"]) simp
  with assms show ?thesis
    by (auto simp: fsSeek_def Let_def split: if_splits)
qed

subsection \<open>What a write stores and transfers\<close>

lemma fsWrite_extend_final:
  assumes "final (fsWrite_extend s c n sz) = Some s1" and "consistent s" "0 \<le> sz"
  shows "consistent s1 \<and> fbn2dbn s \<subseteq>\<^sub>m fbn2dbn s1 \<and>
         (\<exists>tr. trace s1 = trace s @ tr \<and> distinct tr \<and> (\<forall>e\<in>set tr. \<exists>d. e = BioWrite d) \<and>
               (c \<le> sz \<longrightarrow> tr = []))"
proof (cases "sz < c + n")
  case False
  with assms(1) have "s1 = s" by (simp add: fsWrite_extend_def)
  with assms(2) show ?thesis by simp
next
  case True
  from assms(1) True obtain s0 sg where
    e: "final (bfsExtend s ((c + n - 1) sdiv BYTESPERBLOCK)) = Some s0"
    and g: "sg = s0 \<or> sz < c \<and> final (fsWrite_gap s0 c sz) = Some sg"
    and s1: "s1 = sg \<or> s1 = sg\<lparr>fsize := c + n\<rparr>"
    by (rule fsWrite_extend_finalE)
  from bfsExtend_final [OF e] assms(2) have c0: "consistent s0"
    and le0: "fbn2dbn s \<subseteq>\<^sub>m fbn2dbn s0" and t0: "trace s0 = trace s" by simp_all
  have "consistent sg \<and> fbn2dbn s0 \<subseteq>\<^sub>m fbn2dbn sg \<and>
         (\<exists>tr. trace sg = trace s0 @ tr \<and> distinct tr \<and> (\<forall>e\<in>set tr. \<exists>d. e = BioWrite d) \<and>
               (c \<le> sz \<longrightarrow> tr = []))"
    using g
  proof
    assume "sg = s0"
    with c0 show ?thesis by simp
  next
    assume a: "sz < c \<and> final (fsWrite_gap s0 c sz) = Some sg"
    then have fin: "final (fsWrite_gap s0 c sz) = Some sg" by simp
    from fsWrite_gap_final [OF fin c0 assms(3)] obtain tr where
      "consistent sg" "fbn2dbn s0 \<subseteq>\<^sub>m fbn2dbn sg" "trace sg = trace s0 @ tr" "distinct tr"
      "\<forall>e\<in>set tr. \<exists>d. e = BioWrite d"
      by blast
    with a show ?thesis by (intro conjI exI [of _ tr]) simp_all
  qed
  then obtain tr where cg: "consistent sg" and leg: "fbn2dbn s0 \<subseteq>\<^sub>m fbn2dbn sg"
    and tr: "trace sg = trace s0 @ tr" "distinct tr" "\<forall>e\<in>set tr. \<exists>d. e = BioWrite d"
      "c \<le> sz \<longrightarrow> tr = []"
    by blast
  from le0 leg have le: "fbn2dbn s \<subseteq>\<^sub>m fbn2dbn sg" by (rule map_le_trans)
  from s1 show ?thesis
  proof
    assume "s1 = sg"
    with cg le tr t0 show ?thesis by (intro conjI exI [of _ tr]) simp_all
  next
    assume "s1 = sg\<lparr>fsize := c + n\<rparr>"
    with cg le tr t0 show ?thesis by (intro conjI exI [of _ tr]) simp_all
  qed
qed

lemma fsWrite_extend_bytes:
  assumes "fsWrite_extend s c n sz = Done u s1" and "consistent s" "0 \<le> sz" "0 < n"
    and "sz < c" "sz div BYTESPERBLOCK \<le> p div BYTESPERBLOCK"
    and "(p div BYTESPERBLOCK) * BYTESPERBLOCK + sz mod BYTESPERBLOCK < c"
  shows "file_byte s1 p = 0"
proof -
  from assms(4,5) have lt: "sz < c + n" by simp
  from assms(1) lt obtain s0 sg where
    e: "bfsExtend s ((c + n - 1) sdiv BYTESPERBLOCK) = Done () s0"
    and g: "\<not> sz < c \<and> sg = s0 \<or> sz < c \<and> fsWrite_gap s0 c sz = Done () sg"
    and s1: "s1 = sg\<lparr>fsize := c + n\<rparr>"
    by (rule fsWrite_extend_DoneE)
  from e have "final (bfsExtend s ((c + n - 1) sdiv BYTESPERBLOCK)) = Some s0" by simp
  from bfsExtend_final [OF this] assms(2) have c0: "consistent s0" by simp
  from g assms(5) have gd: "fsWrite_gap s0 c sz = Done () sg" by simp
  from fsWrite_gap_Done [OF gd c0 assms(3), of p] assms(6,7) s1 show ?thesis by simp
qed

text \<open>
  What a write that returns stores: the source at the written range, and zeros in the
  rest of the blocks that the gap loop writes.
\<close>

lemma fsWrite_Done:
  assumes "fsWrite s N buf = Done r s'" and "consistent s" "0 \<le> curs s" "0 \<le> fsize s"
  shows "consistent s' \<and>
         (\<forall>p. curs s \<le> p \<and> p < curs s + N \<longrightarrow> file_byte s' p = buf (p - curs s)) \<and>
         (\<forall>p. \<not> (curs s \<le> p \<and> p < curs s + N) \<and> fsize s < curs s \<and>
              fsize s div BYTESPERBLOCK \<le> p div BYTESPERBLOCK \<and>
              (p div BYTESPERBLOCK) * BYTESPERBLOCK + fsize s mod BYTESPERBLOCK < curs s
                \<longrightarrow> file_byte s' p = 0)"
proof -
  from assms(1) obtain u s1 w s2 where N: "0 < N"
    and e: "fsWrite_extend s (curs s) N (fsize s) = Done u s1"
    and l: "fsWrite_loop N buf s1 0 (curs s smod BYTESPERBLOCK) (curs s sdiv BYTESPERBLOCK) = Done w s2"
    and r: "s' = s2\<lparr>curs := curs s + w\<rparr>"
    by (rule fsWrite_DoneE)
  from e have "final (fsWrite_extend s (curs s) N (fsize s)) = Some s1" by simp
  from fsWrite_extend_final [OF this assms(2,4)] have c1: "consistent s1" by blast
  have l': "fsWrite_loop N buf s1 0 (curs s mod BYTESPERBLOCK) (curs s div BYTESPERBLOCK) = Done w s2"
    using l assms(3) by (simp add: sdiv_BPB smod_BPB)
  have off: "0 \<le> curs s mod BYTESPERBLOCK" "curs s mod BYTESPERBLOCK < BYTESPERBLOCK"
    using BPB_pos by simp_all
  from l' have "final (fsWrite_loop N buf s1 0 (curs s mod BYTESPERBLOCK)
                  (curs s div BYTESPERBLOCK)) = Some s2" by simp
  from fsWrite_loop_final [OF this c1 off] have c2: "consistent s2" by blast
  have N0: "(0::int) \<le> N" using N by simp
  from fsWrite_loop_Done [OF l' c1 off N0]
  have b2: "\<And>p. file_byte s2 p = (if curs s \<le> p \<and> p < curs s + N then buf (p - curs s)
                                   else file_byte s1 p)"
    by simp
  have b1: "file_byte s1 p = 0"
    if "fsize s < curs s" "fsize s div BYTESPERBLOCK \<le> p div BYTESPERBLOCK"
       "(p div BYTESPERBLOCK) * BYTESPERBLOCK + fsize s mod BYTESPERBLOCK < curs s" for p
    using e assms(2,4) N that by (rule fsWrite_extend_bytes)
  show ?thesis using c2 r b1 b2 by simp
qed

lemma fsWrite_trace:
  assumes "final (fsWrite s N buf) = Some s'" and "consistent s" "0 \<le> curs s" "0 \<le> fsize s"
  shows "\<exists>tg tw. trace s' = trace s @ tg @ tw \<and> distinct tg \<and> distinct tw \<and>
           (\<forall>e\<in>set tg. \<exists>d. e = BioWrite d) \<and> (curs s \<le> fsize s \<longrightarrow> tg = [])"
proof (cases "N \<le> 0 \<or> \<not> i32 (curs s + N)")
  case True
  with assms(1) have "s' = s"
    by (auto simp: fsWrite_def bfsTell_def bfsGetSize_def Let_def split: if_splits)
  then show ?thesis by (intro exI [of _ "[]"]) simp
next
  case False
  let ?e = "fsWrite_extend s (curs s) N (fsize s)"
  have unf: "fsWrite s N buf =
     (case ?e of Undefined \<Rightarrow> Undefined | Fatal e s' \<Rightarrow> Fatal e s'
      | Done u s1 \<Rightarrow>
          (case fsWrite_loop N buf s1 0 (curs s mod BYTESPERBLOCK) (curs s div BYTESPERBLOCK) of
             Undefined \<Rightarrow> Undefined | Fatal e s' \<Rightarrow> Fatal e s'
           | Done w s2 \<Rightarrow> Done 0 (s2\<lparr>curs := curs s + w\<rparr>)))"
    using False assms(3)
    by (simp add: fsWrite_def bfsTell_def bfsGetSize_def bfsSetCursor_def Let_def
                  sdiv_BPB smod_BPB cong: outcome.case_cong)
  have off: "0 \<le> curs s mod BYTESPERBLOCK" "curs s mod BYTESPERBLOCK < BYTESPERBLOCK"
    using BPB_pos by simp_all
  show ?thesis
  proof (cases ?e)
    case Undefined
    with unf assms(1) show ?thesis by simp
  next
    case (Fatal e s0)
    with unf assms(1) have "s' = s0" by simp
    with Fatal have "final ?e = Some s'" by simp
    from fsWrite_extend_final [OF this assms(2,4)] obtain tr where
      "trace s' = trace s @ tr @ []" "distinct tr" "\<forall>e\<in>set tr. \<exists>d. e = BioWrite d"
      "curs s \<le> fsize s \<longrightarrow> tr = []" by auto
    then show ?thesis by (intro exI [of _ tr] exI [of _ "[]"]) simp
  next
    case (Done u s1)
    then have "final ?e = Some s1" by simp
    from fsWrite_extend_final [OF this assms(2,4)] obtain tg where
      c1: "consistent s1" and tg: "trace s1 = trace s @ tg" "distinct tg"
      "\<forall>e\<in>set tg. \<exists>d. e = BioWrite d" "curs s \<le> fsize s \<longrightarrow> tg = []" by auto
    let ?l = "fsWrite_loop N buf s1 0 (curs s mod BYTESPERBLOCK) (curs s div BYTESPERBLOCK)"
    have "\<exists>s2. final ?l = Some s2 \<and> trace s' = trace s2"
      using unf Done assms(1) by (cases ?l) auto
    then obtain s2 where fl: "final ?l = Some s2" and t: "trace s' = trace s2" by blast
    from fsWrite_loop_final [OF fl c1 off] obtain tw where
      "trace s2 = trace s1 @ tw" "distinct tw" by blast
    with t tg show ?thesis by (intro exI [of _ tg] exI [of _ tw]) simp
  qed
qed

subsection \<open>Reachable states\<close>

text \<open>
  In a reachable state the block map is consistent, and the cursor and the size are
  non-negative.
\<close>

lemma reach_invariant:
  "reach s W \<Longrightarrow> consistent s \<and> 0 \<le> curs s \<and> 0 \<le> fsize s"
proof (induction rule: reach.induct)
  case (reach_create fl dk)
  then show ?case by (simp add: created_def consistent_def)
next
  case (reach_write s W N buf r s')
  then have c: "consistent s" and nn: "0 \<le> curs s" "0 \<le> fsize s" by simp_all
  from reach_write.hyps(2) have N: "0 < N" by (rule fsWrite_DoneE)
  from fsWrite_Done [OF reach_write.hyps(2) c nn] have c': "consistent s'" by simp
  from fsWrite_Done_frame [OF reach_write.hyps(2)] nn N have "0 \<le> curs s'" "0 \<le> fsize s'"
    by (auto split: if_splits)
  with c' show ?case by simp
next
  case (reach_read s W N out x s')
  obtain k out' where x: "x = (k, out')" by (cases x)
  from reach_read.hyps(2) have "final (fsRead s N out) = Some s'" by simp
  from fsRead_final [OF this] obtain c tr where "s' = s\<lparr>curs := c, trace := trace s @ tr\<rparr>"
    by blast
  moreover from fsRead_count [OF reach_read.hyps(2) [unfolded x]] reach_read.IH have "0 \<le> curs s'" by simp
  ultimately show ?case using reach_read.IH by simp
next
  case (reach_seek s W offset whence r s')
  from reach_seek.hyps(2) have "final (fsSeek s offset whence) = Some s'" by simp
  from fsSeek_frame [OF this] obtain c where "s' = s\<lparr>curs := c\<rparr>" ..
  moreover from reach_seek.hyps(2) reach_seek.IH have "0 \<le> curs s'"
    by (auto simp: fsSeek_def fsSize_def bfsGetSize_def Let_def split: if_splits)
  ultimately show ?case using reach_seek.IH by simp
qed

lemma count_list_distinct: "distinct xs \<Longrightarrow> count_list xs x \<le> 1"
  by (induction xs) auto

subsection \<open>Concrete runs\<close>

lemmas eval_defs = fsWrite_def fsWrite_extend_def fsWrite_block_def fsRead_def fsRead_block_def
  fsSeek_def fsSize_def bfsTell_def bfsGetSize_def bfsSetSize_def bfsSetCursor_def bfsFbnToDbn_def
  bfsAllocBlock_def bfsExtend_def bioRead_def bioWrite_def in_block_def i32_def
  BYTESPERBLOCK_def SEEK_SET_def SEEK_CUR_def SEEK_END_def created_def Let_def
  signed_divide_int_def signed_modulo_int_def fsWrite_loop.simps fsWrite_gap.simps
  bfsExtend_loop.simps fsRead_loop.simps

lemma run_digits: "fsWrite (created blank_disk [3, 4, 5]) 10 digits = Done 0 after_digits"
  by (simp add: eval_defs after_digits_def)

lemma consistent_created: "consistent (created blank_disk [3, 4, 5])"
  by (simp add: consistent_def created_def)

lemma consistent_after_digits: "consistent (after_digits\<lparr>curs := c\<rparr>)"
  by (simp add: consistent_def after_digits_def)

lemma reach_after_digits: "reach after_digits {0 ..< 10}"
proof -
  have "reach (created blank_disk [3, 4, 5]) {}" by (rule reach_create) simp
  from reach_write [OF this run_digits] show ?thesis by (simp add: created_def)
qed

lemma reach_after_seek: "reach (after_digits\<lparr>curs := 1000\<rparr>) {0 ..< 10}"
proof -
  have "fsSeek after_digits 1000 SEEK_SET = Done 0 (after_digits\<lparr>curs := 1000\<rparr>)"
    by (simp add: fsSeek_def)
  with reach_after_digits show ?thesis by (rule reach_seek)
qed

lemma run_letters:
  "\<exists>s3. fsWrite (after_digits\<lparr>curs := 1000\<rparr>) 5 letters = Done 0 s3 \<and>
        trace s3 = trace after_digits @ [BioWrite 3, BioWrite 4, BioRead 4, BioWrite 4] \<and>
        fsize s3 = 1005 \<and> curs s3 = 1005 \<and> file_byte s3 0 = 0"
  by (simp add: eval_defs after_digits_def file_byte_def zeroBlock_def)

lemma run_rewrite:
  "\<exists>s'. fsWrite (after_digits\<lparr>curs := 100\<rparr>) 5 letters = Done 0 s' \<and>
        trace s' = trace (after_digits\<lparr>curs := 100\<rparr>) @ [BioWrite 3, BioRead 3, BioWrite 3]"
  by (simp add: eval_defs after_digits_def)

section \<open>Properties of the specification\<close>

subsection \<open>Reading\<close>




subsection \<open>Writing\<close>

text \<open>
  C2, as amended: for every handle with a consistent block map and a non-negative
  cursor \<open>C\<close> and size, and every buffer and \<open>N > 0\<close> (the sums within \<^verbatim>\<open>i32\<close>), when
  \<^verbatim>\<open>fsWrite(h, N, buf)\<close> succeeds, the absolute seek \<^verbatim>\<open>fsSeek(h, C, SEEK_SET)\<close> back to
  the cursor of the write and then \<^verbatim>\<open>fsRead(h, N, out)\<close> succeed, and the \<open>N\<close> bytes read
  are those of \<open>buf\<close>.
\<close>

theorem write_seek_back_read:
  assumes "consistent s" and "0 \<le> curs s" and "0 \<le> fsize s"
    and "curs s + N + BYTESPERBLOCK \<le> 2147483647"
    and "fsWrite s N buf = Done r s1"
  shows "\<exists>s2 out' s3. fsSeek s1 (curs s) SEEK_SET = Done 0 s2 \<and>
           fsRead s2 N out = Done (N, out') s3 \<and>
           (\<forall>i. 0 \<le> i \<and> i < N \<longrightarrow> out' i = buf i)"
proof -
  from assms(5) have N: "0 < N" by (rule fsWrite_DoneE)
  define s2 where "s2 = s1\<lparr>curs := curs s\<rparr>"
  have seek: "fsSeek s1 (curs s) SEEK_SET = Done 0 s2"
    using assms(2) by (simp add: fsSeek_def s2_def)
  from fsWrite_Done_frame [OF assms(5)] have sz: "curs s + N \<le> fsize s1"
    by (simp split: if_splits)
  from fsWrite_Done [OF assms(5,1,2,3)]
  have b: "\<And>p. curs s \<le> p \<Longrightarrow> p < curs s + N \<Longrightarrow> file_byte s1 p = buf (p - curs s)"
    by simp
  have k: "max 0 (min N (fsize s2 - curs s2)) = N"
    using sz N by (simp add: s2_def)
  have pre: "0 \<le> curs s2" "curs s2 + N \<le> 2147483647"
    "min N (fsize s2 - curs s2) + BYTESPERBLOCK \<le> 2147483648"
    using assms(2,4) BPB_pos by (simp_all add: s2_def)
  from fsRead_Done [OF N pre, of out] obtain out' tr where
    run: "fsRead s2 N out = Done (N, out') (s2\<lparr>curs := curs s2 + N, trace := trace s2 @ tr\<rparr>)"
    and bytes: "\<And>i. out' i = (if 0 \<le> i \<and> i < N then file_byte s2 (curs s2 + i) else out i)"
    unfolding k by blast
  have "out' i = buf i" if "0 \<le> i \<and> i < N" for i
    using that bytes [of i] b [of "curs s + i"] by (simp add: s2_def)
  with seek run show ?thesis by blast
qed

text \<open>The ten digits written to a created file are read back after a seek to 0.\<close>

theorem write_seek_back_read_witness:
  "\<exists>s2 out' s3. fsWrite (created blank_disk [3, 4, 5]) 10 digits = Done 0 after_digits \<and>
      fsSeek after_digits 0 SEEK_SET = Done 0 s2 \<and>
      fsRead s2 10 letters = Done (10, out') s3 \<and> out' 0 = digits 0 \<and> out' 9 = digits 9"
proof -
  have pre: "0 \<le> curs (created blank_disk [3, 4, 5])" "0 \<le> fsize (created blank_disk [3, 4, 5])"
    "curs (created blank_disk [3, 4, 5]) + 10 + BYTESPERBLOCK \<le> 2147483647"
    by (simp_all add: created_def BYTESPERBLOCK_def)
  from write_seek_back_read [OF consistent_created pre run_digits, of letters]
  obtain s2 out' s3 where
    "fsSeek after_digits (curs (created blank_disk [3, 4, 5])) SEEK_SET = Done 0 s2"
    "fsRead s2 10 letters = Done (10, out') s3"
    and bytes: "\<And>i. 0 \<le> i \<and> i < 10 \<Longrightarrow> out' i = digits i"
    by blast
  moreover have "out' 0 = digits 0" "out' 9 = digits 9"
    using bytes [of 0] bytes [of 9] by simp_all
  moreover have "curs (created blank_disk [3, 4, 5]) = 0" by (simp add: created_def)
  ultimately show ?thesis using run_digits by auto
qed

text \<open>
  C2 as stated seeks by \<open>- N\<close> relative to the cursor. \<^verbatim>\<open>fsSeek\<close> rejects the negative
  offset: after the ten digits are written, the sequence aborts with \<^verbatim>\<open>EBADCURS\<close>.
\<close>

theorem write_seek_read_fails:
  "write_seek_read (created blank_disk [3, 4, 5]) 10 digits zeroBlock =
     Fatal EBADCURS after_digits"
  by (simp add: write_seek_read_def run_digits fsSeek_def)

text \<open>
  C3: the bytes below the old size and outside the written range should keep their
  contents. The scenario of the spec (section 8) shows that they do not: after the ten
  digits, byte 0 of the file is \<^verbatim>\<open>'0'\<close> (48); the write of 5 bytes at cursor 1000 starts its
  gap loop at the old size 10, inside file block 0, and writes a whole zero block over
  that block; byte 0 is 0 afterwards.
\<close>

theorem gap_fill_clobbers_block:
  "fsWrite (created blank_disk [3, 4, 5]) 10 digits = Done 0 after_digits \<and>
   fsize after_digits = 10 \<and> file_byte after_digits 0 = 48 \<and>
   fsSeek after_digits 1000 SEEK_SET = Done 0 (after_digits\<lparr>curs := 1000\<rparr>) \<and>
   (\<exists>s3. fsWrite (after_digits\<lparr>curs := 1000\<rparr>) 5 letters = Done 0 s3 \<and> file_byte s3 0 = 0)"
proof -
  have "fsize after_digits = 10" "file_byte after_digits 0 = 48"
    by (simp_all add: after_digits_def file_byte_def memcpy_def digits_def BYTESPERBLOCK_def)
  moreover have "fsSeek after_digits 1000 SEEK_SET = Done 0 (after_digits\<lparr>curs := 1000\<rparr>)"
    by (simp add: fsSeek_def)
  ultimately show ?thesis using run_digits run_letters by blast
qed


text \<open>
  C5: for every \<^verbatim>\<open>fsWrite\<close> with cursor \<open>C\<close>, length \<open>N\<close> and old size \<open>S\<close> that succeeds,
  the call returns 0, the cursor afterwards is \<open>C + N\<close>, and the size afterwards is
  \<open>C + N\<close> when \<open>C + N > S\<close> and \<open>S\<close> otherwise.
\<close>

theorem fsWrite_size_and_cursor:
  "fsWrite s N buf = Done r s' \<Longrightarrow>
   r = 0 \<and> curs s' = curs s + N \<and>
   fsize s' = (if curs s + N > fsize s then curs s + N else fsize s)"
  by (rule fsWrite_Done_frame)

text \<open>
  The ten digits written to a created file, and 5 bytes written at cursor 2 inside
  them, which leave the size at 10.
\<close>

theorem fsWrite_size_and_cursor_witness:
  "fsWrite (created blank_disk [3, 4, 5]) 10 digits = Done 0 after_digits \<and>
   curs after_digits = 10 \<and> fsize after_digits = 10 \<and>
   (\<exists>s'. fsWrite (after_digits\<lparr>curs := 2\<rparr>) 5 letters = Done 0 s' \<and>
         curs s' = 7 \<and> fsize s' = 10)"
proof -
  have "\<exists>s'. fsWrite (after_digits\<lparr>curs := 2\<rparr>) 5 letters = Done 0 s'"
    by (simp add: eval_defs after_digits_def)
  then obtain s' where w: "fsWrite (after_digits\<lparr>curs := 2\<rparr>) 5 letters = Done 0 s'" ..
  from fsWrite_size_and_cursor [OF w] have "curs s' = 7" "fsize s' = 10"
    by (simp_all add: after_digits_def)
  with w fsWrite_size_and_cursor [OF run_digits] run_digits show ?thesis
    by (auto simp: created_def)
qed

text \<open>
  C6: the size of the file is monotone. No call of \<^verbatim>\<open>fsRead\<close> or \<^verbatim>\<open>fsSeek\<close> changes
  it, whether the call returns or aborts; \<^verbatim>\<open>fsWrite\<close> changes it only when \<open>C + N\<close>
  exceeds it, and then to \<open>C + N\<close>; so no call decreases it. A write that returns sets
  it to \<open>C + N\<close> exactly when \<open>C + N\<close> exceeds it.
\<close>

theorem size_monotone:
  "(final (fsRead s N out) = Some s' \<longrightarrow> fsize s' = fsize s) \<and>
   (final (fsSeek s offset whence) = Some s' \<longrightarrow> fsize s' = fsize s) \<and>
   (final (fsWrite s N buf) = Some s' \<longrightarrow>
      (fsize s' = fsize s \<or> fsize s < curs s + N \<and> fsize s' = curs s + N) \<and>
      fsize s \<le> fsize s') \<and>
   (fsWrite s N buf = Done r s' \<longrightarrow>
      fsize s' = (if curs s + N > fsize s then curs s + N else fsize s))"
proof (intro conjI impI)
  assume "final (fsRead s N out) = Some s'"
  from fsRead_final [OF this] show "fsize s' = fsize s" by auto
next
  assume "final (fsSeek s offset whence) = Some s'"
  from fsSeek_frame [OF this] show "fsize s' = fsize s" by auto
next
  assume "final (fsWrite s N buf) = Some s'"
  from fsWrite_frame [OF this]
  show "fsize s' = fsize s \<or> fsize s < curs s + N \<and> fsize s' = curs s + N" .
next
  assume "final (fsWrite s N buf) = Some s'"
  from fsWrite_frame [OF this] show "fsize s \<le> fsize s'" by auto
next
  assume "fsWrite s N buf = Done r s'"
  from fsWrite_Done_frame [OF this]
  show "fsize s' = (if curs s + N > fsize s then curs s + N else fsize s)" by simp
qed

theorem size_monotone_witness:
  "(\<exists>s'. final (fsRead after_digits 4 letters) = Some s' \<and> fsize s' = fsize after_digits) \<and>
   (\<exists>s'. final (fsSeek after_digits 1000 SEEK_SET) = Some s' \<and> fsize s' = fsize after_digits) \<and>
   final (fsWrite (created blank_disk [3, 4, 5]) 10 digits) = Some after_digits \<and>
   fsize (created blank_disk [3, 4, 5]) \<le> fsize after_digits \<and> fsize after_digits = 10"
proof -
  have r: "\<exists>s'. final (fsRead after_digits 4 letters) = Some s'"
    by (simp add: eval_defs after_digits_def)
  have s: "\<exists>s'. final (fsSeek after_digits 1000 SEEK_SET) = Some s'"
    by (simp add: fsSeek_def)
  have w: "final (fsWrite (created blank_disk [3, 4, 5]) 10 digits) = Some after_digits"
    by (simp add: run_digits)
  from r obtain s1 where s1: "final (fsRead after_digits 4 letters) = Some s1" ..
  from s obtain s2 where s2: "final (fsSeek after_digits 1000 SEEK_SET) = Some s2" ..
  from size_monotone [of after_digits 4 letters s1 0 SEEK_SET letters 0] s1
  have "fsize s1 = fsize after_digits" by simp
  moreover from size_monotone [of after_digits 0 letters s2 1000 SEEK_SET letters 0] s2
  have "fsize s2 = fsize after_digits" by simp
  moreover from size_monotone [of "created blank_disk [3, 4, 5]" 10 letters after_digits 0 SEEK_SET
      digits 0] w run_digits
  have "fsize (created blank_disk [3, 4, 5]) \<le> fsize after_digits" "fsize after_digits = 10"
    by (simp_all add: created_def)
  ultimately show ?thesis using s1 s2 w by blast
qed

subsection \<open>Transfers\<close>

text \<open>
  C7, as amended, of the transfers that \<^verbatim>\<open>fsRead\<close> and \<^verbatim>\<open>fsWrite\<close> make themselves
  through \<^verbatim>\<open>bioRead\<close> and \<^verbatim>\<open>bioWrite\<close>: for a handle with a consistent block map and
  non-negative cursor and size, a call of \<^verbatim>\<open>fsRead\<close> reads each disk block at most once
  and writes none. In
  a call of \<^verbatim>\<open>fsWrite\<close> the gap loop writes each disk block at most once and reads none,
  and the write loop reads each disk block at most once and writes each at most once;
  so the call reads a block at most once and writes it at most twice, and the gap loop
  transfers nothing when the cursor is not beyond the size. This holds whether the call
  returns or aborts.
\<close>

theorem transfers_per_call:
  assumes "consistent s" and "0 \<le> curs s" and "0 \<le> fsize s"
  shows "(final (fsRead s N out) = Some s' \<longrightarrow>
            (\<exists>tr. trace s' = trace s @ tr \<and> distinct tr \<and> (\<forall>e\<in>set tr. \<exists>d. e = BioRead d))) \<and>
         (final (fsWrite s N buf) = Some s' \<longrightarrow>
            (\<exists>tg tw. trace s' = trace s @ tg @ tw \<and>
               distinct tg \<and> (\<forall>e\<in>set tg. \<exists>d. e = BioWrite d) \<and> distinct tw \<and>
               (curs s \<le> fsize s \<longrightarrow> tg = []) \<and>
               (\<forall>d. count_list (tg @ tw) (BioRead d) \<le> 1 \<and>
                    count_list (tg @ tw) (BioWrite d) \<le> 2)))"
proof (intro conjI impI)
  assume "final (fsRead s N out) = Some s'"
  from fsRead_final [OF this] assms(1) obtain c tr where
    "s' = s\<lparr>curs := c, trace := trace s @ tr\<rparr>" "\<forall>e\<in>set tr. \<exists>d. e = BioRead d" "distinct tr"
    by blast
  then show "\<exists>tr. trace s' = trace s @ tr \<and> distinct tr \<and> (\<forall>e\<in>set tr. \<exists>d. e = BioRead d)"
    by (intro exI [of _ tr]) simp
next
  assume "final (fsWrite s N buf) = Some s'"
  from fsWrite_trace [OF this assms] obtain tg tw where
    t: "trace s' = trace s @ tg @ tw" and d: "distinct tg" "distinct tw"
    and g: "\<forall>e\<in>set tg. \<exists>d. e = BioWrite d" "curs s \<le> fsize s \<longrightarrow> tg = []"
    by blast
  have "count_list (tg @ tw) (BioRead x) \<le> 1 \<and> count_list (tg @ tw) (BioWrite x) \<le> 2" for x
  proof -
    from g(1) have "BioRead x \<notin> set tg" by auto
    then have "count_list tg (BioRead x) = 0" by (simp add: count_list_0_iff)
    moreover have "count_list tw (BioRead x) \<le> 1" "count_list tw (BioWrite x) \<le> 1"
      "count_list tg (BioWrite x) \<le> 1"
      using d count_list_distinct [of tw "BioRead x"] count_list_distinct [of tw "BioWrite x"]
        count_list_distinct [of tg "BioWrite x"] by simp_all
    ultimately show ?thesis by simp
  qed
  with t d g show "\<exists>tg tw. trace s' = trace s @ tg @ tw \<and>
               distinct tg \<and> (\<forall>e\<in>set tg. \<exists>d. e = BioWrite d) \<and> distinct tw \<and>
               (curs s \<le> fsize s \<longrightarrow> tg = []) \<and>
               (\<forall>d. count_list (tg @ tw) (BioRead d) \<le> 1 \<and>
                    count_list (tg @ tw) (BioWrite d) \<le> 2)"
    by (intro exI [of _ tg] exI [of _ tw]) simp
qed

theorem transfers_per_call_witness:
  "(\<exists>s' tr. final (fsRead (after_digits\<lparr>curs := 0\<rparr>) 4 letters) = Some s' \<and>
       trace s' = trace (after_digits\<lparr>curs := 0\<rparr>) @ tr \<and> distinct tr) \<and>
   (\<exists>s' tg tw. final (fsWrite (after_digits\<lparr>curs := 100\<rparr>) 5 letters) = Some s' \<and>
       trace s' = trace (after_digits\<lparr>curs := 100\<rparr>) @ tg @ tw \<and>
       distinct tg \<and> distinct tw \<and>
       count_list (tg @ tw) (BioRead 3) \<le> 1 \<and> count_list (tg @ tw) (BioWrite 3) \<le> 2)"
proof -
  have pre: "0 \<le> curs (after_digits\<lparr>curs := c\<rparr>)" "0 \<le> fsize (after_digits\<lparr>curs := c\<rparr>)"
    if "0 \<le> c" for c
    using that by (simp_all add: after_digits_def)
  have "\<exists>s'. final (fsRead (after_digits\<lparr>curs := 0\<rparr>) 4 letters) = Some s'"
    by (simp add: eval_defs after_digits_def)
  then obtain s1 where s1: "final (fsRead (after_digits\<lparr>curs := 0\<rparr>) 4 letters) = Some s1" ..
  from run_rewrite
  obtain s2 where "fsWrite (after_digits\<lparr>curs := 100\<rparr>) 5 letters = Done 0 s2" by blast
  then have s2: "final (fsWrite (after_digits\<lparr>curs := 100\<rparr>) 5 letters) = Some s2" by simp
  from transfers_per_call [where s = "after_digits\<lparr>curs := 0\<rparr>" and N = 4 and out = letters
      and s' = s1 and buf = letters] consistent_after_digits [of 0] pre [of 0] s1
  obtain tr where "trace s1 = trace (after_digits\<lparr>curs := 0\<rparr>) @ tr" "distinct tr" by auto
  moreover
  from transfers_per_call [where s = "after_digits\<lparr>curs := 100\<rparr>" and N = 5 and out = letters
      and s' = s2 and buf = letters] consistent_after_digits [of 100] pre [of 100] s2
  obtain tg tw where "trace s2 = trace (after_digits\<lparr>curs := 100\<rparr>) @ tg @ tw"
    "distinct tg" "distinct tw"
    "count_list (tg @ tw) (BioRead 3) \<le> 1" "count_list (tg @ tw) (BioWrite 3) \<le> 2"
    by auto
  ultimately show ?thesis using s1 s2 by blast
qed

text \<open>
  C7 as stated allows one transfer of a block in a call. With the ten digits in file
  block 0 (disk block 3), the write of 5 bytes at cursor 100 transfers disk block 3
  three times: the gap loop zeroes it, and the write loop reads it and writes it back.
\<close>

theorem rewrite_transfers_block_thrice:
  "\<exists>s'. fsWrite (after_digits\<lparr>curs := 100\<rparr>) 5 letters = Done 0 s' \<and>
        trace s' = trace (after_digits\<lparr>curs := 100\<rparr>) @ [BioWrite 3, BioRead 3, BioWrite 3]"
  by (rule run_rewrite)

subsection \<open>Rejected arguments and seeks\<close>

text \<open>
  C8: for a handle whose cursor and size are non-negative \<^verbatim>\<open>i32\<close> values, \<^verbatim>\<open>fsSeek\<close> to
  a negative absolute offset fails fatally; \<^verbatim>\<open>fsSeek\<close> in any of the three modes whose
  computed cursor (the offset, the cursor plus the offset, the size plus the offset)
  would be negative fails fatally; \<^verbatim>\<open>fsSeek\<close> relative to the end with offset 0 succeeds
  and leaves the cursor at the file size; and a successful seek changes neither the size
  nor the block store, and transfers no block.
\<close>

theorem fsSeek_contract:
  assumes "0 \<le> curs s" and "0 \<le> fsize s" and "i32 (fsize s)"
  shows "(offset < 0 \<longrightarrow> fsSeek s offset SEEK_SET = Fatal EBADCURS s) \<and>
         ((whence = SEEK_SET \<and> offset < 0) \<or> (whence = SEEK_CUR \<and> curs s + offset < 0) \<or>
          (whence = SEEK_END \<and> fsize s + offset < 0)
            \<longrightarrow> fsSeek s offset whence = Fatal EBADCURS s) \<and>
         fsSeek s 0 SEEK_END = Done 0 (s\<lparr>curs := fsize s\<rparr>) \<and>
         (fsSeek s offset whence = Done r s'
            \<longrightarrow> fsize s' = fsize s \<and> trace s' = trace s \<and> disk s' = disk s \<and>
                fbn2dbn s' = fbn2dbn s \<and> freelist s' = freelist s)"
  using assms
  by (auto simp: fsSeek_def fsSize_def bfsGetSize_def SEEK_SET_def SEEK_CUR_def SEEK_END_def
                 Let_def split: if_splits)

theorem fsSeek_contract_witness:
  "fsSeek (after_digits\<lparr>curs := 7\<rparr>) (- 1) SEEK_SET =
     Fatal EBADCURS (after_digits\<lparr>curs := 7\<rparr>) \<and>
   fsSeek (after_digits\<lparr>curs := 7\<rparr>) (- 8) SEEK_CUR =
     Fatal EBADCURS (after_digits\<lparr>curs := 7\<rparr>) \<and>
   fsSeek (after_digits\<lparr>curs := 7\<rparr>) 0 SEEK_END =
     Done 0 (after_digits\<lparr>curs := 10\<rparr>) \<and>
   fsize (after_digits\<lparr>curs := 10\<rparr>) = fsize (after_digits\<lparr>curs := 7\<rparr>) \<and>
   trace (after_digits\<lparr>curs := 10\<rparr>) = trace (after_digits\<lparr>curs := 7\<rparr>)"
  using fsSeek_contract [of "after_digits\<lparr>curs := 7\<rparr>" "- 1" SEEK_SET
          0 "after_digits\<lparr>curs := 10\<rparr>"]
        fsSeek_contract [of "after_digits\<lparr>curs := 7\<rparr>" "- 8" SEEK_CUR
          0 "after_digits\<lparr>curs := 10\<rparr>"]
        fsSeek_contract [of "after_digits\<lparr>curs := 7\<rparr>" 0 SEEK_END
          0 "after_digits\<lparr>curs := 10\<rparr>"]
  by (simp add: after_digits_def i32_def SEEK_SET_def SEEK_CUR_def SEEK_END_def)

text \<open>
  C9: for every handle and every length \<open>N \<le> 0\<close>, both \<^verbatim>\<open>fsRead\<close> and \<^verbatim>\<open>fsWrite\<close>
  reject the call as a fatal invalid-argument failure (\<^verbatim>\<open>ENEGNUMB\<close>). The state at the
  abort is the state of the call: no block was transferred (the trace is the same), and
  the cursor and the size are unchanged.
\<close>

theorem nonpositive_length_rejected:
  "numb \<le> 0 \<Longrightarrow>
   fsRead s numb out = Fatal ENEGNUMB s \<and> fsWrite s numb buf = Fatal ENEGNUMB s"
  by (simp add: fsRead_def fsWrite_def)

theorem nonpositive_length_rejected_witness:
  "fsRead (created blank_disk [1, 2]) (- 3) zeroBlock =
     Fatal ENEGNUMB (created blank_disk [1, 2]) \<and>
   fsWrite (created blank_disk [1, 2]) 0 zeroBlock =
     Fatal ENEGNUMB (created blank_disk [1, 2])"
  using nonpositive_length_rejected [of "- 3" "created blank_disk [1, 2]" zeroBlock zeroBlock]
        nonpositive_length_rejected [of 0 "created blank_disk [1, 2]" zeroBlock zeroBlock]
  by simp

text \<open>
  C10, as amended: \<^verbatim>\<open>fsSeek\<close> rejects every negative offset as a fatal failure
  (\<^verbatim>\<open>EBADCURS\<close>) before it looks at the mode, in all three modes and for any other mode
  value, also where the cursor plus the offset or the size plus the offset would be
  non-negative. So a seek relative to the cursor does not move the cursor backwards
  where its sum is defined: for a non-negative cursor and an offset \<open>\<ge> 0\<close> with the cursor
  plus the offset at most \<open>2^31 - 1\<close> it succeeds and the new cursor, their sum, is not
  below the old one; with the cursor plus the offset beyond \<open>2^31 - 1\<close> the sum of line
  162 overflows and the call has no defined result.
  An absolute seek with an offset \<open>\<ge> 0\<close> sets the cursor to the offset, and a seek
  relative to the end with an offset \<open>\<ge> 0\<close> (the size non-negative, the size plus the
  offset at most \<open>2^31 - 1\<close>) sets it to the size plus the offset: these two move the
  cursor backwards when that target is below the cursor.
\<close>

theorem fsSeek_rejects_negative_offset:
  "(offset < 0 \<longrightarrow> fsSeek s offset whence = Fatal EBADCURS s) \<and>
   (0 \<le> offset \<and> 0 \<le> curs s \<and> curs s + offset \<le> 2147483647 \<longrightarrow>
      fsSeek s offset SEEK_CUR = Done 0 (s\<lparr>curs := curs s + offset\<rparr>) \<and>
      curs s \<le> curs s + offset) \<and>
   (0 \<le> offset \<and> 2147483647 < curs s + offset \<longrightarrow>
      fsSeek s offset SEEK_CUR = Undefined) \<and>
   (0 \<le> offset \<longrightarrow> fsSeek s offset SEEK_SET = Done 0 (s\<lparr>curs := offset\<rparr>)) \<and>
   (0 \<le> offset \<and> 0 \<le> fsize s \<and> fsize s + offset \<le> 2147483647 \<longrightarrow>
      fsSeek s offset SEEK_END = Done 0 (s\<lparr>curs := fsize s + offset\<rparr>))"
  by (auto simp: fsSeek_def fsSize_def bfsGetSize_def i32_def SEEK_SET_def SEEK_CUR_def
                 SEEK_END_def Let_def split: if_splits)

text \<open>
  At cursor 7 of the ten digits: the negative offsets are rejected, a relative seek by
  3 moves forward to 10, an absolute seek to 2 and a seek to the end from cursor 1000
  move backwards.
\<close>

theorem fsSeek_rejects_negative_offset_witness:
  "fsSeek (after_digits\<lparr>curs := 7\<rparr>) (- 2) SEEK_CUR = Fatal EBADCURS (after_digits\<lparr>curs := 7\<rparr>) \<and>
   fsSeek (after_digits\<lparr>curs := 7\<rparr>) (- 2) SEEK_END = Fatal EBADCURS (after_digits\<lparr>curs := 7\<rparr>) \<and>
   fsSeek (after_digits\<lparr>curs := 7\<rparr>) 3 SEEK_CUR = Done 0 (after_digits\<lparr>curs := 10\<rparr>) \<and>
   curs (after_digits\<lparr>curs := 7\<rparr>) \<le> curs (after_digits\<lparr>curs := 10\<rparr>) \<and>
   fsSeek (after_digits\<lparr>curs := 7\<rparr>) 2 SEEK_SET = Done 0 (after_digits\<lparr>curs := 2\<rparr>) \<and>
   curs (after_digits\<lparr>curs := 2\<rparr>) < curs (after_digits\<lparr>curs := 7\<rparr>) \<and>
   fsSeek (after_digits\<lparr>curs := 1000\<rparr>) 0 SEEK_END = Done 0 (after_digits\<lparr>curs := 10\<rparr>) \<and>
   curs (after_digits\<lparr>curs := 10\<rparr>) < curs (after_digits\<lparr>curs := 1000\<rparr>)"
  using fsSeek_rejects_negative_offset [of "- 2" "after_digits\<lparr>curs := 7\<rparr>" SEEK_CUR]
        fsSeek_rejects_negative_offset [of "- 2" "after_digits\<lparr>curs := 7\<rparr>" SEEK_END]
        fsSeek_rejects_negative_offset [of 3 "after_digits\<lparr>curs := 7\<rparr>" SEEK_CUR]
        fsSeek_rejects_negative_offset [of 2 "after_digits\<lparr>curs := 7\<rparr>" SEEK_SET]
        fsSeek_rejects_negative_offset [of 0 "after_digits\<lparr>curs := 1000\<rparr>" SEEK_END]
  by (simp add: after_digits_def)

text \<open>
  C10 as stated ends "so no seek can ever move the cursor backwards". After the ten bytes
  of the scenario are written the cursor is 10, and an absolute seek to offset 0 succeeds
  and moves it back to 0.
\<close>

theorem fsSeek_moves_cursor_backwards:
  "fsSeek after_digits 0 SEEK_SET = Done 0 (after_digits\<lparr>curs := 0\<rparr>) \<and>
   curs (after_digits\<lparr>curs := 0\<rparr>) < curs after_digits"
  by (simp add: fsSeek_def after_digits_def)

end
